theory Spec2Isabelle
  imports Complex_Main "HOL-Library.Sublist"
begin

section \<open>JavaScript strings\<close>

text \<open>
  A JavaScript string is a sequence of UTF-16 code units. A code unit is represented by
  its numeric value; \<open>js\<close> embeds an ASCII literal of the source text.
\<close>

type_synonym jschar = nat
type_synonym jsstring = "jschar list"

definition js :: "string \<Rightarrow> jsstring" where
  "js s = map of_char s"

text \<open>The class \<open>\d\<close>: the ten ASCII digits.\<close>

definition isDigit :: "jschar \<Rightarrow> bool" where
  "isDigit c = (48 \<le> c \<and> c \<le> 57)"

text \<open>
  The class \<open>\s\<close> of ECMAScript (WhiteSpace and LineTerminator), which is also the set
  that \<open>String.prototype.trim\<close> strips: TAB, LF, VT, FF, CR, SP, NBSP, U+1680,
  U+2000..U+200A, U+2028, U+2029, U+202F, U+205F, U+3000, U+FEFF.
\<close>

definition isSpace :: "jschar \<Rightarrow> bool" where
  "isSpace c = ((9 \<le> c \<and> c \<le> 13) \<or> c = 32 \<or> c = 160 \<or> c = 5760
     \<or> (8192 \<le> c \<and> c \<le> 8202) \<or> c = 8232 \<or> c = 8233 \<or> c = 8239
     \<or> c = 8287 \<or> c = 12288 \<or> c = 65279)"

text \<open>
  Canonicalisation under the \<open>i\<close> flag (without \<open>u\<close>): a code unit is mapped to its
  upper case, except that a non-ASCII unit is never mapped to an ASCII one. The patterns
  of this program are ASCII, so only the ASCII letters matter: no unit outside ASCII
  becomes equal to a pattern character.
\<close>

definition canonicalize :: "jschar \<Rightarrow> jschar" where
  "canonicalize c = (if 97 \<le> c \<and> c \<le> 122 then c - 32 else c)"

section \<open>Backtracking regular expressions\<close>

text \<open>
  A pattern is a matcher in continuation-passing style, as in the ECMAScript
  specification: it consumes a prefix of the input and hands the rest to its
  continuation; when the continuation fails it tries its next alternative. The result
  is the input left after the whole match. Sequencing is function composition.
\<close>

type_synonym cont = "jsstring \<Rightarrow> jsstring option"
type_synonym rx = "cont \<Rightarrow> cont"

text \<open>One character of a class.\<close>

fun cls :: "(jschar \<Rightarrow> bool) \<Rightarrow> rx" where
  "cls P k [] = None"
| "cls P k (c # cs) = (if P c then k cs else None)"

text \<open>A literal character, and one compared after canonicalisation (flag \<open>i\<close>).\<close>

definition chr :: "char \<Rightarrow> rx" where
  "chr a = cls (\<lambda>c. c = of_char a)"

definition chr_i :: "char \<Rightarrow> rx" where
  "chr_i a = cls (\<lambda>c. canonicalize c = canonicalize (of_char a))"

text \<open>A literal string: its characters in sequence.\<close>

fun lit :: "string \<Rightarrow> rx" where
  "lit [] k = k"
| "lit (a # as) k = chr a (lit as k)"

fun lit_i :: "string \<Rightarrow> rx" where
  "lit_i [] k = k"
| "lit_i (a # as) k = chr_i a (lit_i as k)"

text \<open>The greedy \<open>r?\<close>: first with \<open>r\<close>, then without.\<close>

definition opt :: "rx \<Rightarrow> rx" where
  "opt r k s = (case r k s of Some rest \<Rightarrow> Some rest | None \<Rightarrow> k s)"

text \<open>The greedy \<open>[P]*\<close> and \<open>[P]+\<close>: the longest run first, then shorter ones.\<close>

fun star :: "(jschar \<Rightarrow> bool) \<Rightarrow> rx" where
  "star P k [] = k []"
| "star P k (c # cs) =
     (if P c then (case star P k cs of Some rest \<Rightarrow> Some rest | None \<Rightarrow> k (c # cs))
      else k (c # cs))"

definition plus :: "(jschar \<Rightarrow> bool) \<Rightarrow> rx" where
  "plus P k = cls P (star P k)"

text \<open>The assertion \<open>$\<close> (no \<open>m\<close> flag): the end of the input.\<close>

definition eos :: rx where
  "eos k s = (if s = [] then k s else None)"

text \<open>
  The match of a pattern at the start of \<open>s\<close>: the number of characters it consumed.
\<close>

definition matchAt :: "rx \<Rightarrow> jsstring \<Rightarrow> nat option" where
  "matchAt r s = (case r Some s of None \<Rightarrow> None | Some rest \<Rightarrow> Some (length s - length rest))"

text \<open>
  \<open>String.prototype.replace\<close> with a global pattern and a replacement function: the
  matches are found left to right, each search starting where the last match ended; the
  text between the matches is copied. After an empty match the search moves on by one
  character.
\<close>

function replaceAll :: "rx \<Rightarrow> (jsstring \<Rightarrow> jsstring) \<Rightarrow> jsstring \<Rightarrow> jsstring" where
  "replaceAll r f s =
     (case matchAt r s of
        None \<Rightarrow> (case s of [] \<Rightarrow> [] | c # cs \<Rightarrow> c # replaceAll r f cs)
      | Some n \<Rightarrow>
          if 0 < n \<and> n \<le> length s then f (take n s) @ replaceAll r f (drop n s)
          else f [] @ (case s of [] \<Rightarrow> [] | c # cs \<Rightarrow> c # replaceAll r f cs))"
  by pat_completeness auto
termination
  by (relation "measure (\<lambda>(r, f, s). length s)") auto

text \<open>
  \<open>String.prototype.replace\<close> with a pattern without the \<open>g\<close> flag: only the leftmost
  match is replaced; the end of the input is a position too.
\<close>

fun replaceFirst :: "rx \<Rightarrow> (jsstring \<Rightarrow> jsstring) \<Rightarrow> jsstring \<Rightarrow> jsstring" where
  "replaceFirst r f [] = (case matchAt r [] of None \<Rightarrow> [] | Some n \<Rightarrow> f [])"
| "replaceFirst r f (c # cs) =
     (case matchAt r (c # cs) of
        None \<Rightarrow> c # replaceFirst r f cs
      | Some n \<Rightarrow> f (take n (c # cs)) @ drop n (c # cs))"

section \<open>The response formatter\<close>

subsection \<open>linkify\<close>

text \<open>\<^verbatim>\<open>/(https?:\/\/[^\s<>]+)/g\<close>\<close>

definition urlChar :: "jschar \<Rightarrow> bool" where
  "urlChar c = (\<not> isSpace c \<and> c \<noteq> 60 \<and> c \<noteq> 62)"

definition urlRegex :: rx where
  "urlRegex = lit ''http'' \<circ> opt (chr CHR ''s'') \<circ> lit ''://'' \<circ> plus urlChar"

text \<open>\<^verbatim>\<open>/[.,!?)]*$/\<close>\<close>

definition isTrailing :: "jschar \<Rightarrow> bool" where
  "isTrailing c = (c = 46 \<or> c = 44 \<or> c = 33 \<or> c = 63 \<or> c = 41)"

definition trailingRegex :: rx where
  "trailingRegex = star isTrailing \<circ> eos"

definition cleanUrl :: "jsstring \<Rightarrow> jsstring" where
  "cleanUrl url = replaceFirst trailingRegex (\<lambda>m. []) url"

definition anchor :: "jsstring \<Rightarrow> jsstring" where
  \<open>anchor u = js ''<a href="'' @ u
     @ js ''" target="_blank" class="text-blue-600 underline hover:text-blue-700">'' @ u
     @ js ''</a>''\<close>

definition linkify :: "jsstring \<Rightarrow> jsstring" where
  "linkify text = replaceAll urlRegex (\<lambda>url. anchor (cleanUrl url)) text"

subsection \<open>formatResponse\<close>

text \<open>\<^verbatim>\<open>/(\d{3,4}\s?\d{3,4}\s?\d{3,4})/g\<close>, the replacement wraps group 1, the whole match.\<close>

definition digits34 :: rx where
  "digits34 = cls isDigit \<circ> cls isDigit \<circ> cls isDigit \<circ> opt (cls isDigit)"

definition phoneRegex :: rx where
  "phoneRegex = digits34 \<circ> opt (cls isSpace) \<circ> digits34 \<circ> opt (cls isSpace) \<circ> digits34"

definition phoneSpan :: "jsstring \<Rightarrow> jsstring" where
  \<open>phoneSpan m = js ''<span class="font-semibold text-blue-600">'' @ m @ js ''</span>''\<close>

text \<open>\<^verbatim>\<open>/(\d{1,2}:\d{2})/g\<close>\<close>

definition timeRegex :: rx where
  "timeRegex = cls isDigit \<circ> opt (cls isDigit) \<circ> chr CHR '':'' \<circ> cls isDigit \<circ> cls isDigit"

definition timeSpan :: "jsstring \<Rightarrow> jsstring" where
  \<open>timeSpan m = js ''<span class="font-semibold">'' @ m @ js ''</span>''\<close>

text \<open>
  \<^verbatim>\<open>/pronto soccorso/gi\<close> and \<^verbatim>\<open>/CUP/g\<close>. The glyphs are U+1F6A8 and U+1F4DE, two
  code units each.
\<close>

definition prontoRegex :: rx where
  "prontoRegex = lit_i ''pronto soccorso''"

definition prontoText :: jsstring where
  "prontoText = [55357, 57000] @ js '' Pronto Soccorso''"

definition cupRegex :: rx where
  "cupRegex = lit ''CUP''"

definition cupText :: jsstring where
  "cupText = [55357, 56542] @ js '' CUP''"

definition highlightPhones :: "jsstring \<Rightarrow> jsstring" where
  "highlightPhones text = replaceAll phoneRegex phoneSpan text"

definition highlightTimes :: "jsstring \<Rightarrow> jsstring" where
  "highlightTimes text = replaceAll timeRegex timeSpan text"

definition annotatePronto :: "jsstring \<Rightarrow> jsstring" where
  "annotatePronto text = replaceAll prontoRegex (\<lambda>m. prontoText) text"

definition annotateCup :: "jsstring \<Rightarrow> jsstring" where
  "annotateCup text = replaceAll cupRegex (\<lambda>m. cupText) text"

definition annotateKeywords :: "jsstring \<Rightarrow> jsstring" where
  "annotateKeywords text = annotateCup (annotatePronto text)"

definition formatResponse :: "jsstring \<Rightarrow> jsstring" where
  "formatResponse text = annotateKeywords (highlightTimes (highlightPhones (linkify text)))"

section \<open>The session state\<close>

text \<open>
  The globals of \<^verbatim>\<open>app.js\<close> (the font size apart) and the parts of the page and of the
  platform that the functions below read or write. Effects on the outside (requests,
  notifications, speech, the console) are recorded in the order in which they are
  issued. A JSON number is represented by its value.
\<close>

record entry =
  utente :: jsstring
  ai :: jsstring
  timestamp :: jsstring

datatype json =
    JNull
  | JBool bool
  | JNum rat
  | JStr jsstring
  | JArr "json list"
  | JObj "(jsstring \<times> json) list"

datatype severity = Success | Error | Warning | Info

datatype failure = NetworkError | ServerError nat | ParseError | TypeError

text \<open>
  The children of \<^verbatim>\<open>#storico\<close>. A typing indicator carries the number of its creation,
  which stands for the identity of the element.
\<close>

datatype node =
    UserMsg jsstring
  | TypingIndicator nat
  | AIMessage jsstring "json option"
  | Suggestions "json list"
  | Metrics json
  | ErrorMsg jsstring

datatype speech = Cancel | Speak jsstring

datatype logline = LogError failure | LogAnalytics

record request =
  question :: jsstring
  history :: "entry list"
  session_id :: jsstring

record state =
  storicoDomande :: "entry list"
  voiceEnabled :: bool
  isListening :: bool
  sessionId :: jsstring
  domanda :: jsstring
  storico :: "node list"
  typingDivs :: nat
  suggestedHidden :: bool
  statusText :: jsstring
  statusHidden :: bool
  voiceFeedbackHidden :: bool
  notifications :: "(jsstring \<times> severity) list"
  requests :: "request list"
  speechOps :: "speech list"
  recognitions :: nat
  capturing :: "nat list"
  console :: "logline list"

text \<open>
  What the platform hands to one call of \<^verbatim>\<open>chiedi\<close>: how the request ended and the
  time stamp read for the history entry. A response carries its status and its body,
  which is JSON or is not.
\<close>

datatype outcome = Rejected | Response nat "json option"

record turn =
  outcome :: outcome
  now :: jsstring

text \<open>
  Conversions of the engine that are not spelt out here: the text of a number, the text
  of an array or object (\<open>None\<close> when \<^verbatim>\<open>toString\<close> and \<^verbatim>\<open>valueOf\<close> of an object are not
  callable, which raises a TypeError), and the comparison \<^verbatim>\<open>v > 0\<close> for a \<open>v\<close> that is a
  string, an array or an object.
\<close>

record engine =
  numberToString :: "rat \<Rightarrow> jsstring"
  objectToString :: "json \<Rightarrow> jsstring option"
  greaterThanZero :: "json \<Rightarrow> bool"

subsection \<open>Values\<close>

text \<open>
  A property read: \<open>None\<close> is \<^verbatim>\<open>undefined\<close>. Of duplicate keys \<^verbatim>\<open>JSON.parse\<close> keeps the
  last. The names read through \<open>field\<close> are not properties of strings, arrays, numbers
  or booleans, nor of \<^verbatim>\<open>Object.prototype\<close>; the length of a string or an array is read
  in \<open>lengthPositive\<close>.
\<close>

fun field :: "string \<Rightarrow> json \<Rightarrow> json option" where
  "field k (JObj kvs) = map_of (rev kvs) (js k)"
| "field k v = None"

fun truthy :: "json option \<Rightarrow> bool" where
  "truthy None = False"
| "truthy (Some JNull) = False"
| "truthy (Some (JBool b)) = b"
| "truthy (Some (JNum x)) = (x \<noteq> 0)"
| "truthy (Some (JStr s)) = (s \<noteq> [])"
| "truthy (Some (JArr xs)) = True"
| "truthy (Some (JObj kvs)) = True"

fun toStringJs :: "engine \<Rightarrow> json option \<Rightarrow> jsstring option" where
  "toStringJs eng None = Some (js ''undefined'')"
| "toStringJs eng (Some JNull) = Some (js ''null'')"
| "toStringJs eng (Some (JBool b)) = Some (js (if b then ''true'' else ''false''))"
| "toStringJs eng (Some (JNum x)) = Some (numberToString eng x)"
| "toStringJs eng (Some (JStr s)) = Some s"
| "toStringJs eng (Some (JArr xs)) = objectToString eng (JArr xs)"
| "toStringJs eng (Some (JObj kvs)) = objectToString eng (JObj kvs)"

text \<open>\<^verbatim>\<open>v.length > 0\<close> for a truthy \<open>v\<close>.\<close>

fun lengthPositive :: "engine \<Rightarrow> json \<Rightarrow> bool" where
  "lengthPositive eng (JStr s) = (0 < length s)"
| "lengthPositive eng (JArr xs) = (0 < length xs)"
| "lengthPositive eng (JObj kvs) =
     (case field ''length'' (JObj kvs) of
        None \<Rightarrow> False
      | Some JNull \<Rightarrow> False
      | Some (JBool b) \<Rightarrow> b
      | Some (JNum x) \<Rightarrow> 0 < x
      | Some w \<Rightarrow> greaterThanZero eng w)"
| "lengthPositive eng v = False"

text \<open>\<^verbatim>\<open>String.prototype.trim\<close>\<close>

definition trim :: "jsstring \<Rightarrow> jsstring" where
  "trim s = rev (dropWhile isSpace (rev (dropWhile isSpace s)))"

subsection \<open>Notifications, status bar, speech\<close>

definition showNotification :: "jsstring \<Rightarrow> severity \<Rightarrow> state \<Rightarrow> state" where
  "showNotification message type st = st\<lparr>notifications := notifications st @ [(message, type)]\<rparr>"

definition showStatus :: "jsstring \<Rightarrow> state \<Rightarrow> state" where
  "showStatus message st = st\<lparr>statusText := message, statusHidden := False\<rparr>"

definition hideStatus :: "state \<Rightarrow> state" where
  "hideStatus st = st\<lparr>statusHidden := True\<rparr>"

definition leggiVoce :: "jsstring \<Rightarrow> state \<Rightarrow> state" where
  "leggiVoce testo st =
     (if \<not> voiceEnabled st then st
      else st\<lparr>speechOps := speechOps st @ [Cancel, Speak testo]\<rparr>)"

definition appendChild :: "node \<Rightarrow> state \<Rightarrow> state" where
  "appendChild n st = st\<lparr>storico := storico st @ [n]\<rparr>"

definition removeNode :: "node \<Rightarrow> state \<Rightarrow> state" where
  "removeNode n st = st\<lparr>storico := filter (\<lambda>m. m \<noteq> n) (storico st)\<rparr>"

subsection \<open>Rendering a reply\<close>

text \<open>
  \<^verbatim>\<open>createAIMessage\<close>: \<^verbatim>\<open>formatResponse(data.risposta)\<close> raises a TypeError unless the
  answer is a string (also when \<^verbatim>\<open>data\<close> is \<^verbatim>\<open>null\<close>). The badge is built from the intent
  when that is truthy and not \<^verbatim>\<open>'generale'\<close>; its label is the text of a value, which
  the engine may fail to produce. The node keeps the formatted answer and the intent of
  the badge, not the label.
\<close>

definition createAIMessage :: "engine \<Rightarrow> json \<Rightarrow> failure + node" where
  "createAIMessage eng data =
     (case field ''risposta'' data of
        Some (JStr text) \<Rightarrow>
          (let formattedResponse = formatResponse text; intent = field ''intent'' data in
           if truthy intent \<and> intent \<noteq> Some (JStr (js ''generale''))
           then (case toStringJs eng intent of
                   None \<Rightarrow> Inl TypeError
                 | Some label \<Rightarrow> Inr (AIMessage formattedResponse intent))
           else Inr (AIMessage formattedResponse None))
      | _ \<Rightarrow> Inl TypeError)"

text \<open>
  \<^verbatim>\<open>showSuggestions\<close>: \<^verbatim>\<open>forEach\<close> exists on arrays only; each element becomes the text
  of a button. The container is attached last, so a raise leaves the page as it was.
\<close>

definition showSuggestions :: "engine \<Rightarrow> json \<Rightarrow> state \<Rightarrow> failure + state" where
  "showSuggestions eng suggerimenti st =
     (case suggerimenti of
        JArr xs \<Rightarrow>
          if list_all (\<lambda>sugg. toStringJs eng (Some sugg) \<noteq> None) xs
          then Inr (appendChild (Suggestions xs) st)
          else Inl TypeError
      | _ \<Rightarrow> Inl TypeError)"

text \<open>\<^verbatim>\<open>showMetrics\<close>: \<^verbatim>\<open>toFixed\<close> exists on numbers only; the intent is interpolated.\<close>

definition showMetrics :: "engine \<Rightarrow> json \<Rightarrow> state \<Rightarrow> failure + state" where
  "showMetrics eng data st =
     (if \<not> truthy (field ''tempo_risposta'' data) then Inr st
      else (case field ''tempo_risposta'' data of
              Some (JNum x) \<Rightarrow>
                (case toStringJs eng (field ''intent'' data) of
                   None \<Rightarrow> Inl TypeError
                 | Some i \<Rightarrow> Inr (appendChild (Metrics data) st))
            | _ \<Rightarrow> Inl TypeError))"

text \<open>The answer, read where it is known to be a string.\<close>

definition risposta :: "json \<Rightarrow> jsstring" where
  "risposta data = (case field ''risposta'' data of Some (JStr text) \<Rightarrow> text | _ \<Rightarrow> [])"

subsection \<open>chiedi\<close>

definition ok :: "nat \<Rightarrow> bool" where
  "ok status = (200 \<le> status \<and> status \<le> 299)"

definition errorHtml :: jsstring where
  \<open>errorHtml = js ''\<newline>      <p class="font-semibold">'' @ [9888, 65039]
     @ js '' Errore di connessione</p>\<newline>      <p class="text-sm mt-1">Non riesco a contattare il server. Riprova tra poco o chiama il centralino: 045 807 1111</p>\<newline>    ''\<close>

text \<open>
  Lines 30 to 69, up to the first \<^verbatim>\<open>await\<close>: the early return on an empty question
  (\<open>Inl\<close>), or the question, the typing indicator and the state in which the request is
  in flight. The body of the request is serialised at the call, so it holds the history
  of that moment.
\<close>

definition chiedi_send :: "state \<Rightarrow> state + (jsstring \<times> node \<times> state)" where
  "chiedi_send st =
     (let q = trim (domanda st) in
      if q = [] then Inl (showNotification (js ''Per favore, scrivi una domanda'') Warning st)
      else
        let st1 = st\<lparr>suggestedHidden := True\<rparr>;
            st2 = appendChild (UserMsg q) st1;
            typingDiv = TypingIndicator (typingDivs st2);
            st3 = appendChild typingDiv (st2\<lparr>typingDivs := Suc (typingDivs st2)\<rparr>);
            st4 = showStatus (js ''Sto elaborando la tua richiesta...'') st3;
            st5 = st4\<lparr>requests := requests st4 @
                    [\<lparr>question = q, history = storicoDomande st4, session_id = sessionId st4\<rparr>]\<rparr>
        in Inr (q, typingDiv, st5))"

text \<open>
  Lines 78 to 120, once \<^verbatim>\<open>data\<close> is there: the result is the final state, or the error
  raised together with the state reached when it was raised.
\<close>

definition chiedi_reply ::
  "engine \<Rightarrow> jsstring \<Rightarrow> node \<Rightarrow> jsstring \<Rightarrow> json \<Rightarrow> state \<Rightarrow> (failure \<times> state) + state" where
  "chiedi_reply eng q typingDiv ts data st =
     (let st1 = hideStatus (removeNode typingDiv st) in
      case createAIMessage eng data of
        Inl e \<Rightarrow> Inl (e, st1)
      | Inr aiMsg \<Rightarrow>
          let st2 = appendChild aiMsg st1 in
          case (case field ''suggerimenti'' data of
                  None \<Rightarrow> Inr st2
                | Some sugg \<Rightarrow>
                    if truthy (Some sugg) \<and> lengthPositive eng sugg
                    then showSuggestions eng sugg st2 else Inr st2) of
            Inl e \<Rightarrow> Inl (e, st2)
          | Inr st3 \<Rightarrow>
              case (if truthy (field ''tempo_risposta'' data) then showMetrics eng data st3
                    else Inr st3) of
                Inl e \<Rightarrow> Inl (e, st3)
              | Inr st4 \<Rightarrow>
                  let st5 = st4\<lparr>storicoDomande := storicoDomande st4 @
                              [\<lparr>utente = q, ai = risposta data, timestamp = ts\<rparr>]\<rparr>;
                      st6 = (if length (storicoDomande st5) > 10
                             then st5\<lparr>storicoDomande := tl (storicoDomande st5)\<rparr> else st5);
                      st7 = (if voiceEnabled st6 then leggiVoce (risposta data) st6 else st6);
                      st8 = st7\<lparr>domanda := []\<rparr>
                  in case (toStringJs eng (field ''intent'' data),
                           toStringJs eng (field ''cached'' data)) of
                       (Some i, Some c) \<Rightarrow> Inr (st8\<lparr>console := console st8 @ [LogAnalytics]\<rparr>)
                     | _ \<Rightarrow> Inl (TypeError, st8))"

text \<open>The \<^verbatim>\<open>try\<close> block from the first \<^verbatim>\<open>await\<close> on.\<close>

definition chiedi_try ::
  "engine \<Rightarrow> turn \<Rightarrow> jsstring \<Rightarrow> node \<Rightarrow> state \<Rightarrow> (failure \<times> state) + state" where
  "chiedi_try eng t q typingDiv st =
     (case outcome t of
        Rejected \<Rightarrow> Inl (NetworkError, st)
      | Response status body \<Rightarrow>
          if \<not> ok status then Inl (ServerError status, st)
          else (case body of
                  None \<Rightarrow> Inl (ParseError, st)
                | Some data \<Rightarrow> chiedi_reply eng q typingDiv (now t) data st))"

text \<open>The \<^verbatim>\<open>catch\<close> block.\<close>

definition chiedi_catch :: "failure \<Rightarrow> node \<Rightarrow> state \<Rightarrow> state" where
  "chiedi_catch err typingDiv st =
     appendChild (ErrorMsg errorHtml)
       (hideStatus (removeNode typingDiv (st\<lparr>console := console st @ [LogError err]\<rparr>)))"

text \<open>
  What a call does when it resumes, in the state that the page has by then: the rest of
  the \<^verbatim>\<open>try\<close> block and, on a raise, the \<^verbatim>\<open>catch\<close> block. Nothing of the page is read or
  written between the request (line 61) and line 79, so the two \<^verbatim>\<open>await\<close>s of lines 61
  and 75 count as one suspension.
\<close>

definition chiedi_resume :: "engine \<Rightarrow> turn \<Rightarrow> jsstring \<Rightarrow> node \<Rightarrow> state \<Rightarrow> state" where
  "chiedi_resume eng t q typingDiv st =
     (case chiedi_try eng t q typingDiv st of
        Inr st' \<Rightarrow> st'
      | Inl (err, st') \<Rightarrow> chiedi_catch err typingDiv st')"

text \<open>A call with nothing happening between its request and its reply.\<close>

definition chiedi :: "engine \<Rightarrow> turn \<Rightarrow> state \<Rightarrow> state" where
  "chiedi eng t st =
     (case chiedi_send st of
        Inl st' \<Rightarrow> st'
      | Inr (q, typingDiv, st') \<Rightarrow> chiedi_resume eng t q typingDiv st')"

definition quickAsk :: "engine \<Rightarrow> turn \<Rightarrow> jsstring \<Rightarrow> state \<Rightarrow> state" where
  "quickAsk eng t q st = chiedi eng t (st\<lparr>domanda := q\<rparr>)"

subsection \<open>Calls in flight\<close>

text \<open>
  A handler runs until it returns or reaches an \<^verbatim>\<open>await\<close>; while a call of \<^verbatim>\<open>chiedi\<close> waits
  for its reply the page is live, so the user may edit the input field and submit
  again. A page is the state together with the calls in flight, each with its question
  and its typing indicator (the constants \<^verbatim>\<open>domanda\<close> and \<^verbatim>\<open>typingDiv\<close> of the suspended
  call). The replies may come in any order: \<open>Replied k t\<close> resumes the \<open>k\<close>-th call in
  flight with what the platform answers.
\<close>

datatype action = Typed jsstring | Asked | Replied nat turn

type_synonym page = "state \<times> (jsstring \<times> node) list"

fun act :: "engine \<Rightarrow> page \<Rightarrow> action \<Rightarrow> page" where
  "act eng (st, calls) (Typed s) = (st\<lparr>domanda := s\<rparr>, calls)"
| "act eng (st, calls) Asked =
     (case chiedi_send st of
        Inl st' \<Rightarrow> (st', calls)
      | Inr (q, typingDiv, st') \<Rightarrow> (st', calls @ [(q, typingDiv)]))"
| "act eng (st, calls) (Replied k t) =
     (if k < length calls
      then (chiedi_resume eng t (fst (calls ! k)) (snd (calls ! k)) st,
            take k calls @ drop (Suc k) calls)
      else (st, calls))"

definition acts :: "engine \<Rightarrow> action list \<Rightarrow> state \<Rightarrow> state" where
  "acts eng as st = fst (foldl (act eng) (st, []) as)"

subsection \<open>Voice capture\<close>

text \<open>
  \<^verbatim>\<open>attivaVoce\<close>; \<open>supported\<close> says whether the platform has a speech recogniser. A capture
  session is a recogniser that has been started (line 275) and has not yet had its
  \<^verbatim>\<open>end\<close> event; \<open>capturing\<close> lists the sessions that are running, numbered in the order
  in which they were started. The three handlers of a session follow: they are closures
  over the one global flag, so that \<^verbatim>\<open>onresult\<close> and \<^verbatim>\<open>onerror\<close> do the same for every
  session; with its \<^verbatim>\<open>end\<close> event the session \<open>i\<close> is over.
\<close>

definition attivaVoce :: "bool \<Rightarrow> state \<Rightarrow> state" where
  "attivaVoce supported st =
     (if \<not> supported
      then showNotification (js ''Il tuo browser non supporta il riconoscimento vocale'') Error st
      else if isListening st then st
      else st\<lparr>voiceFeedbackHidden := False, isListening := True,
              recognitions := Suc (recognitions st),
              capturing := capturing st @ [recognitions st]\<rparr>)"

definition onresult :: "jsstring \<Rightarrow> bool \<Rightarrow> state \<Rightarrow> state" where
  "onresult transcript isFinal st =
     (let st1 = st\<lparr>domanda := transcript\<rparr> in
      if isFinal then st1\<lparr>voiceFeedbackHidden := True, isListening := False\<rparr> else st1)"

definition onerror :: "jsstring \<Rightarrow> state \<Rightarrow> state" where
  "onerror reason st =
     showNotification (js ''Errore nel riconoscimento vocale: '' @ reason) Error
       (st\<lparr>voiceFeedbackHidden := True, isListening := False\<rparr>)"

definition onend :: "nat \<Rightarrow> state \<Rightarrow> state" where
  "onend i st = st\<lparr>voiceFeedbackHidden := True, isListening := False,
                   capturing := filter (\<lambda>j. j \<noteq> i) (capturing st)\<rparr>"

text \<open>
  What happens to the voice capture, one event at a time: the user presses the
  microphone button, or the platform delivers an event of a session. It delivers events
  of running sessions only.
\<close>

datatype event = Mic bool | Result nat jsstring bool | Failure nat jsstring | End nat

fun fire :: "state \<Rightarrow> event \<Rightarrow> state" where
  "fire st (Mic supported) = attivaVoce supported st"
| "fire st (Result i transcript isFinal) =
     (if i \<in> set (capturing st) then onresult transcript isFinal st else st)"
| "fire st (Failure i reason) = (if i \<in> set (capturing st) then onerror reason st else st)"
| "fire st (End i) = (if i \<in> set (capturing st) then onend i st else st)"

definition events :: "event list \<Rightarrow> state \<Rightarrow> state" where
  "events es st = foldl fire st es"

section \<open>Inputs and shapes used in the statements\<close>

text \<open>The state when the script has loaded (lines 2 to 6), for a given session id.\<close>

definition initialState :: "jsstring \<Rightarrow> state" where
  "initialState sid =
     \<lparr>storicoDomande = [], voiceEnabled = False, isListening = False, sessionId = sid,
      domanda = [], storico = [], typingDivs = 0, suggestedHidden = False, statusText = [],
      statusHidden = True, voiceFeedbackHidden = True, notifications = [], requests = [],
      speechOps = [], recognitions = 0, capturing = [], console = []\<rparr>"

text \<open>An engine to run the model on concrete inputs.\<close>

definition sampleEngine :: engine where
  "sampleEngine = \<lparr>numberToString = (\<lambda>x. js ''0''),
     objectToString = (\<lambda>v. Some (js ''[object Object]'')), greaterThanZero = (\<lambda>v. False)\<rparr>"

text \<open>
  An engine that gives the text of an object as ECMAScript does (OrdinaryToPrimitive).
  No value of a JSON document is callable, so an object with a \<^verbatim>\<open>toString\<close> of its own
  has no text: its \<^verbatim>\<open>valueOf\<close>, its own or the inherited one, gives no primitive either,
  and the conversion raises a TypeError. Every other object is \<^verbatim>\<open>[object Object]\<close>. The
  text of an array is not consulted in the runs below and is left empty.
\<close>

definition objectText :: "json \<Rightarrow> jsstring option" where
  "objectText v =
     (case v of
        JObj kvs \<Rightarrow> (if field ''toString'' v = None then Some (js ''[object Object]'') else None)
      | _ \<Rightarrow> Some [])"

definition strictEngine :: engine where
  "strictEngine = \<lparr>numberToString = (\<lambda>x. js ''0''),
     objectToString = objectText, greaterThanZero = (\<lambda>v. False)\<rparr>"

text \<open>
  The reply can be rendered: \<^verbatim>\<open>createAIMessage\<close>, \<^verbatim>\<open>showSuggestions\<close> (where it is called)
  and \<^verbatim>\<open>showMetrics\<close> (where it is called) raise nothing, so that line 99 is reached.
\<close>

definition messageRenders :: "engine \<Rightarrow> json \<Rightarrow> bool" where
  "messageRenders eng data = (case createAIMessage eng data of Inl e \<Rightarrow> False | Inr n \<Rightarrow> True)"

definition suggestionsRender :: "engine \<Rightarrow> json \<Rightarrow> bool" where
  "suggestionsRender eng data =
     (case field ''suggerimenti'' data of
        None \<Rightarrow> True
      | Some sugg \<Rightarrow>
          if truthy (Some sugg) \<and> lengthPositive eng sugg
          then (case sugg of
                  JArr xs \<Rightarrow> list_all (\<lambda>s. toStringJs eng (Some s) \<noteq> None) xs
                | _ \<Rightarrow> False)
          else True)"

definition metricsRender :: "engine \<Rightarrow> json \<Rightarrow> bool" where
  "metricsRender eng data =
     (if truthy (field ''tempo_risposta'' data)
      then (case field ''tempo_risposta'' data of
              Some (JNum x) \<Rightarrow> toStringJs eng (field ''intent'' data) \<noteq> None
            | _ \<Rightarrow> False)
      else True)"

definition rendersReply :: "engine \<Rightarrow> json \<Rightarrow> bool" where
  "rendersReply eng data =
     (messageRenders eng data \<and> suggestionsRender eng data \<and> metricsRender eng data)"

text \<open>
  A call that succeeds: a 2xx status and a JSON body that can be rendered. A call that
  fails: the request is rejected, the status is not 2xx, the body is not JSON, or it is
  JSON that cannot be rendered (as when it has no string \<^verbatim>\<open>risposta\<close>).
\<close>

definition callSucceeds :: "engine \<Rightarrow> turn \<Rightarrow> bool" where
  "callSucceeds eng t =
     (case outcome t of
        Rejected \<Rightarrow> False
      | Response status body \<Rightarrow>
          ok status \<and> (case body of None \<Rightarrow> False | Some data \<Rightarrow> rendersReply eng data))"

definition callFails :: "engine \<Rightarrow> turn \<Rightarrow> bool" where
  "callFails eng t =
     (case outcome t of
        Rejected \<Rightarrow> True
      | Response status body \<Rightarrow>
          \<not> ok status \<or>
          (case body of None \<Rightarrow> True | Some data \<Rightarrow> \<not> rendersReply eng data))"

definition payload :: "turn \<Rightarrow> json" where
  "payload t = (case outcome t of Response status (Some data) \<Rightarrow> data | _ \<Rightarrow> JNull)"

text \<open>
  The closing \<^verbatim>\<open>console.log\<close> (line 120) interpolates the intent and \<^verbatim>\<open>data.cached\<close>: it
  raises when one of them has no text. The \<^verbatim>\<open>catch\<close> block runs when the \<^verbatim>\<open>try\<close> block
  raises.
\<close>

definition logRaises :: "engine \<Rightarrow> json \<Rightarrow> bool" where
  "logRaises eng data =
     (toStringJs eng (field ''intent'' data) = None \<or> toStringJs eng (field ''cached'' data) = None)"

definition catchRuns :: "engine \<Rightarrow> turn \<Rightarrow> jsstring \<Rightarrow> node \<Rightarrow> state \<Rightarrow> bool" where
  "catchRuns eng t q typingDiv st =
     (case chiedi_try eng t q typingDiv st of Inl x \<Rightarrow> True | Inr st' \<Rightarrow> False)"

text \<open>The request that \<^verbatim>\<open>chiedi\<close> issues from a state, and the history that lines 99 to
  109 leave behind.\<close>

definition sent :: "state \<Rightarrow> request" where
  "sent st = \<lparr>question = trim (domanda st), history = storicoDomande st, session_id = sessionId st\<rparr>"

definition saved :: "jsstring \<Rightarrow> jsstring \<Rightarrow> json \<Rightarrow> entry list \<Rightarrow> entry list" where
  "saved q ts data h =
     (let h' = h @ [\<lparr>utente = q, ai = risposta data, timestamp = ts\<rparr>]
      in if length h' > 10 then tl h' else h')"

definition isErrorMsg :: "node \<Rightarrow> bool" where
  "isErrorMsg n = (case n of ErrorMsg html \<Rightarrow> True | _ \<Rightarrow> False)"

text \<open>
  A submission: the user's text is put into the input field and \<^verbatim>\<open>chiedi\<close> runs with what
  the platform answers. It is successful when the text is not blank and the call
  succeeds.
\<close>

definition submit :: "engine \<Rightarrow> state \<Rightarrow> jsstring \<times> turn \<Rightarrow> state" where
  "submit eng st x = quickAsk eng (snd x) (fst x) st"

definition successful :: "engine \<Rightarrow> jsstring \<times> turn \<Rightarrow> bool" where
  "successful eng x = (trim (fst x) \<noteq> [] \<and> callSucceeds eng (snd x))"

definition turnEntry :: "jsstring \<times> turn \<Rightarrow> entry" where
  "turnEntry x =
     \<lparr>utente = trim (fst x), ai = risposta (payload (snd x)), timestamp = now (snd x)\<rparr>"

text \<open>
  A run of voice events is orderly when the microphone button is not pressed between
  the final result or the error of a session and the \<^verbatim>\<open>end\<close> event of that session;
  \<open>closing\<close> lists the sessions whose \<^verbatim>\<open>end\<close> event is due.
\<close>

fun orderly :: "nat list \<Rightarrow> event list \<Rightarrow> bool" where
  "orderly closing [] = True"
| "orderly closing (Mic supported # es) = (closing = [] \<and> orderly [] es)"
| "orderly closing (Result i transcript isFinal # es) =
     orderly (if isFinal then i # closing else closing) es"
| "orderly closing (Failure i reason # es) = orderly (i # closing) es"
| "orderly closing (End i # es) = orderly (removeAll i closing) es"

text \<open>
  A string in which none of the three later steps of the formatter finds anything: at
  no position does the phone pattern, the time pattern or a keyword pattern match.
\<close>

definition inert :: "jsstring \<Rightarrow> bool" where
  "inert u =
     list_all (\<lambda>t. matchAt phoneRegex t = None \<and> matchAt timeRegex t = None
                 \<and> matchAt prontoRegex t = None \<and> matchAt cupRegex t = None)
       (suffixes u)"

text \<open>
  The shape of a highlighted phone number: three groups of three or four digits, with
  nothing or one white-space character between two groups.
\<close>

definition digitGroup :: "jsstring \<Rightarrow> bool" where
  "digitGroup d = ((length d = 3 \<or> length d = 4) \<and> list_all isDigit d)"

definition separator :: "jsstring \<Rightarrow> bool" where
  "separator w = (w = [] \<or> (length w = 1 \<and> list_all isSpace w))"

definition phoneShaped :: "jsstring \<Rightarrow> bool" where
  "phoneShaped g =
     (\<exists>d1 w1 d2 w2 d3. g = d1 @ w1 @ d2 @ w2 @ d3
        \<and> digitGroup d1 \<and> separator w1 \<and> digitGroup d2 \<and> separator w2 \<and> digitGroup d3)"


section \<open>Notions used in the proofs\<close>

text \<open>
  A continuation is shortening when what it returns is not longer than what it was given,
  and consuming when it is shorter. A continuation passes a character \<open>c\<close> when, on an
  input that goes on with \<open>c\<close>, it does what its counterpart does on the input cut before
  \<open>c\<close>.
\<close>

definition shortening :: "cont \<Rightarrow> bool" where
  "shortening k = (\<forall>x rest. k x = Some rest \<longrightarrow> length rest \<le> length x)"

definition consuming :: "cont \<Rightarrow> bool" where
  "consuming k = (\<forall>x rest. k x = Some rest \<longrightarrow> length rest < length x)"

definition passes :: "jschar \<Rightarrow> jsstring \<Rightarrow> cont \<Rightarrow> cont \<Rightarrow> bool" where
  "passes c b k k' = (\<forall>x. k (x @ c # b) = map_option (\<lambda>rest. rest @ c # b) (k' x))"

text \<open>
  A pattern never matches the empty string; a pattern stops at a character \<open>c\<close>: its
  match in front of \<open>c\<close> does not depend on what comes from \<open>c\<close> on.
\<close>

definition neverEmpty :: "rx \<Rightarrow> bool" where
  "neverEmpty r = consuming (r Some)"

definition stopsAt :: "jschar \<Rightarrow> rx \<Rightarrow> bool" where
  "stopsAt c r = (\<forall>b. passes c b (r Some) (r Some))"

text \<open>
  The states that the rendering steps go through differ from the state they start in
  only in the chat and the status bar.
\<close>

definition sameSession :: "state \<Rightarrow> state \<Rightarrow> bool" where
  "sameSession st' st =
     (storicoDomande st' = storicoDomande st \<and> domanda st' = domanda st
      \<and> requests st' = requests st \<and> notifications st' = notifications st
      \<and> voiceEnabled st' = voiceEnabled st \<and> sessionId st' = sessionId st
      \<and> console st' = console st)"

text \<open>
  The voice capture is settled, for the sessions that are closing, when at most one
  session is running and the flag is set unless the running session is closing.
\<close>

definition settled :: "nat list \<Rightarrow> state \<Rightarrow> bool" where
  "settled closing st =
     (length (capturing st) \<le> 1 \<and> (isListening st \<or> set (capturing st) \<subseteq> set closing))"

section \<open>Properties of the session controller\<close>

lemma trim_Nil_iff: "trim s = [] \<longleftrightarrow> list_all isSpace s"
proof -
  have "trim s = [] \<longleftrightarrow> (\<forall>x\<in>set (dropWhile isSpace s). isSpace x)"
    by (simp add: trim_def dropWhile_eq_Nil_conv)
  also have "\<dots> \<longleftrightarrow> dropWhile isSpace s = []"
  proof
    assume a: "\<forall>x\<in>set (dropWhile isSpace s). isSpace x"
    show "dropWhile isSpace s = []"
    proof (rule ccontr)
      assume "dropWhile isSpace s \<noteq> []"
      then have "\<not> isSpace (hd (dropWhile isSpace s))"
        "hd (dropWhile isSpace s) \<in> set (dropWhile isSpace s)"
        by (simp_all add: hd_dropWhile)
      with a show False by blast
    qed
  qed (auto dest: set_dropWhileD)
  also have "\<dots> \<longleftrightarrow> list_all isSpace s"
    by (simp add: dropWhile_eq_Nil_conv list_all_iff)
  finally show ?thesis .
qed

lemma callFails_iff: "callFails eng t \<longleftrightarrow> \<not> callSucceeds eng t"
  by (simp add: callFails_def callSucceeds_def split: outcome.splits option.splits)

lemma isErrorMsg_simps:
  "isErrorMsg (ErrorMsg html)" "\<not> isErrorMsg (UserMsg q)" "\<not> isErrorMsg (TypingIndicator k)"
  "\<not> isErrorMsg (AIMessage f b)" "\<not> isErrorMsg (Suggestions xs)" "\<not> isErrorMsg (Metrics d)"
  by (simp_all add: isErrorMsg_def)

lemma filter_isErrorMsg_remove:
  "filter (\<lambda>m. m \<noteq> TypingIndicator k \<and> isErrorMsg m) ns = filter isErrorMsg ns"
  by (induction ns) (auto simp: isErrorMsg_simps)

subsection \<open>The three rendering steps\<close>

lemma createAIMessage_cases:
  "(\<exists>e. createAIMessage eng data = Inl e \<and> \<not> messageRenders eng data)
   \<or> (\<exists>f b. createAIMessage eng data = Inr (AIMessage f b) \<and> messageRenders eng data)"
  by (cases "createAIMessage eng data")
     (auto simp: messageRenders_def createAIMessage_def Let_def
       split: option.splits json.splits if_splits)

lemma suggestions_step:
  "(case field ''suggerimenti'' data of
      None \<Rightarrow> Inr st
    | Some sugg \<Rightarrow>
        if truthy (Some sugg) \<and> lengthPositive eng sugg
        then showSuggestions eng sugg st else Inr st)
   = (if suggestionsRender eng data
      then Inr (case field ''suggerimenti'' data of
                  None \<Rightarrow> st
                | Some sugg \<Rightarrow>
                    if truthy (Some sugg) \<and> lengthPositive eng sugg
                    then appendChild (Suggestions (case sugg of JArr xs \<Rightarrow> xs | _ \<Rightarrow> [])) st
                    else st)
      else Inl TypeError)"
proof (cases "field ''suggerimenti'' data")
  case None
  then show ?thesis by (simp add: suggestionsRender_def)
next
  case (Some sugg)
  show ?thesis
  proof (cases "truthy (Some sugg)")
    case False
    with Some show ?thesis by (simp add: suggestionsRender_def)
  next
    case t: True
    show ?thesis
    proof (cases "lengthPositive eng sugg")
      case False
      with Some show ?thesis by (simp add: suggestionsRender_def)
    next
      case True
      with t Some show ?thesis
        by (cases sugg) (simp_all add: suggestionsRender_def showSuggestions_def)
    qed
  qed
qed

lemma metrics_step:
  "(if truthy (field ''tempo_risposta'' data) then showMetrics eng data st else Inr st)
   = (if metricsRender eng data
      then Inr (if truthy (field ''tempo_risposta'' data)
                then appendChild (Metrics data) st else st)
      else Inl TypeError)"
proof (cases "truthy (field ''tempo_risposta'' data)")
  case False
  then show ?thesis by (simp add: metricsRender_def)
next
  case True
  then show ?thesis
    by (simp add: metricsRender_def showMetrics_def split: option.splits json.splits)
qed

lemma sameSession_steps:
  "sameSession (hideStatus st) st" "sameSession (removeNode n st) st"
  "sameSession (appendChild n st) st" "sameSession st st"
  by (simp_all add: sameSession_def hideStatus_def removeNode_def appendChild_def)

lemma chiedi_reply_raises:
  assumes "\<not> rendersReply eng data"
  shows "\<exists>e st'. chiedi_reply eng q (TypingIndicator k) ts data st = Inl (e, st')
           \<and> sameSession st' st
           \<and> filter isErrorMsg (storico st') = filter isErrorMsg (storico st)"
proof -
  define st1 where "st1 = hideStatus (removeNode (TypingIndicator k) st)"
  have s1: "sameSession st1 st"
    "filter isErrorMsg (storico st1) = filter isErrorMsg (storico st)"
    by (simp_all add: st1_def sameSession_def hideStatus_def removeNode_def
        filter_isErrorMsg_remove)
  from createAIMessage_cases [of eng data] show ?thesis
  proof (elim disjE exE conjE)
    fix e
    assume "createAIMessage eng data = Inl e"
    then have "chiedi_reply eng q (TypingIndicator k) ts data st = Inl (e, st1)"
      by (simp add: chiedi_reply_def st1_def)
    with s1 show ?thesis by blast
  next
    fix f b
    assume m: "createAIMessage eng data = Inr (AIMessage f b)" and r: "messageRenders eng data"
    define st2 where "st2 = appendChild (AIMessage f b) st1"
    have s2: "sameSession st2 st"
      "filter isErrorMsg (storico st2) = filter isErrorMsg (storico st)"
      using s1 by (simp_all add: st2_def sameSession_def appendChild_def isErrorMsg_simps)
    show ?thesis
    proof (cases "suggestionsRender eng data")
      case False
      then have "chiedi_reply eng q (TypingIndicator k) ts data st = Inl (TypeError, st2)"
        unfolding chiedi_reply_def Let_def m sum.case st1_def [symmetric]
          st2_def [symmetric] suggestions_step
        by simp
      with s2 show ?thesis by blast
    next
      case True
      define st3 where "st3 = (case field ''suggerimenti'' data of
                  None \<Rightarrow> st2
                | Some sugg \<Rightarrow>
                    if truthy (Some sugg) \<and> lengthPositive eng sugg
                    then appendChild (Suggestions (case sugg of JArr xs \<Rightarrow> xs | _ \<Rightarrow> [])) st2
                    else st2)"
      have s3: "sameSession st3 st"
        "filter isErrorMsg (storico st3) = filter isErrorMsg (storico st)"
        using s2
        by (simp_all add: st3_def sameSession_def appendChild_def isErrorMsg_simps
            split: option.splits)
      from True r assms have "\<not> metricsRender eng data" by (simp add: rendersReply_def)
      with True have "chiedi_reply eng q (TypingIndicator k) ts data st = Inl (TypeError, st3)"
        unfolding chiedi_reply_def Let_def m sum.case st1_def [symmetric]
          st2_def [symmetric] suggestions_step metrics_step
        by (simp add: st3_def)
      with s3 show ?thesis by blast
    qed
  qed
qed

lemma chiedi_reply_renders:
  assumes "rendersReply eng data"
  shows "\<exists>st'. chiedi_reply eng q (TypingIndicator k) ts data st
             = (if logRaises eng data then Inl (TypeError, st')
                else Inr (st'\<lparr>console := console st' @ [LogAnalytics]\<rparr>))
           \<and> storicoDomande st' = saved q ts data (storicoDomande st)
           \<and> domanda st' = [] \<and> requests st' = requests st
           \<and> notifications st' = notifications st
           \<and> filter isErrorMsg (storico st') = filter isErrorMsg (storico st)"
proof -
  from assms have r: "messageRenders eng data" "suggestionsRender eng data"
    "metricsRender eng data" by (simp_all add: rendersReply_def)
  from createAIMessage_cases [of eng data] r(1) obtain f b
    where m: "createAIMessage eng data = Inr (AIMessage f b)" by blast
  define st1 where "st1 = hideStatus (removeNode (TypingIndicator k) st)"
  define st2 where "st2 = appendChild (AIMessage f b) st1"
  define st3 where "st3 = (case field ''suggerimenti'' data of
                  None \<Rightarrow> st2
                | Some sugg \<Rightarrow>
                    if truthy (Some sugg) \<and> lengthPositive eng sugg
                    then appendChild (Suggestions (case sugg of JArr xs \<Rightarrow> xs | _ \<Rightarrow> [])) st2
                    else st2)"
  define st4 where "st4 = (if truthy (field ''tempo_risposta'' data)
                then appendChild (Metrics data) st3 else st3)"
  have "sameSession st1 st \<and> filter isErrorMsg (storico st1) = filter isErrorMsg (storico st)"
    by (simp add: st1_def sameSession_def hideStatus_def removeNode_def filter_isErrorMsg_remove)
  then have "sameSession st2 st
      \<and> filter isErrorMsg (storico st2) = filter isErrorMsg (storico st)"
    by (simp add: st2_def sameSession_def appendChild_def isErrorMsg_simps)
  then have "sameSession st3 st
      \<and> filter isErrorMsg (storico st3) = filter isErrorMsg (storico st)"
    by (simp add: st3_def sameSession_def appendChild_def isErrorMsg_simps split: option.splits)
  then have s4: "sameSession st4 st"
    "filter isErrorMsg (storico st4) = filter isErrorMsg (storico st)"
    by (simp_all add: st4_def sameSession_def appendChild_def isErrorMsg_simps)
  define st8 where "st8 = (let st5 = st4\<lparr>storicoDomande := storicoDomande st4 @
                              [\<lparr>utente = q, ai = risposta data, timestamp = ts\<rparr>]\<rparr>;
                      st6 = (if length (storicoDomande st5) > 10
                             then st5\<lparr>storicoDomande := tl (storicoDomande st5)\<rparr> else st5);
                      st7 = (if voiceEnabled st6 then leggiVoce (risposta data) st6 else st6)
                  in st7\<lparr>domanda := []\<rparr>)"
  have s8: "storicoDomande st8 = saved q ts data (storicoDomande st)" "domanda st8 = []"
    "requests st8 = requests st" "notifications st8 = notifications st"
    "filter isErrorMsg (storico st8) = filter isErrorMsg (storico st)"
    using s4 by (simp_all add: st8_def saved_def Let_def leggiVoce_def sameSession_def)
  have c: "chiedi_reply eng q (TypingIndicator k) ts data st
      = (case (toStringJs eng (field ''intent'' data), toStringJs eng (field ''cached'' data)) of
           (Some i, Some c) \<Rightarrow> Inr (st8\<lparr>console := console st8 @ [LogAnalytics]\<rparr>)
         | _ \<Rightarrow> Inl (TypeError, st8))"
    unfolding chiedi_reply_def Let_def m sum.case st1_def [symmetric] st2_def [symmetric]
      suggestions_step metrics_step if_P [OF r(2)] if_P [OF r(3)]
      st3_def [symmetric] st4_def [symmetric] st8_def
    by (rule refl)
  have "chiedi_reply eng q (TypingIndicator k) ts data st
          = (if logRaises eng data then Inl (TypeError, st8)
             else Inr (st8\<lparr>console := console st8 @ [LogAnalytics]\<rparr>))"
  proof (cases "toStringJs eng (field ''intent'' data)")
    case None
    with c show ?thesis by (simp add: logRaises_def)
  next
    case i: (Some i)
    show ?thesis
    proof (cases "toStringJs eng (field ''cached'' data)")
      case None
      with c i show ?thesis by (simp add: logRaises_def)
    next
      case (Some c')
      with c i show ?thesis by (simp add: logRaises_def)
    qed
  qed
  with s8 show ?thesis by blast
qed

subsection \<open>One call of chiedi\<close>

lemma chiedi_blank:
  assumes "trim (domanda st) = []"
  shows "chiedi eng t st =
           st\<lparr>notifications := notifications st @ [(js ''Per favore, scrivi una domanda'', Warning)]\<rparr>"
  using assms by (simp add: chiedi_def chiedi_send_def showNotification_def)

lemma chiedi_send_blank:
  assumes "trim (domanda st) = []"
  shows "chiedi_send st = Inl (showNotification (js ''Per favore, scrivi una domanda'') Warning st)"
  using assms by (simp add: chiedi_send_def)

lemma chiedi_send_nonblank:
  assumes "trim (domanda st) \<noteq> []"
  shows "\<exists>st'. chiedi_send st = Inr (trim (domanda st), TypingIndicator (typingDivs st), st')
           \<and> storicoDomande st' = storicoDomande st \<and> domanda st' = domanda st
           \<and> requests st' = requests st @ [sent st]
           \<and> notifications st' = notifications st
           \<and> voiceEnabled st' = voiceEnabled st \<and> sessionId st' = sessionId st
           \<and> filter isErrorMsg (storico st') = filter isErrorMsg (storico st)"
  using assms
  by (simp add: chiedi_send_def Let_def appendChild_def showStatus_def sent_def isErrorMsg_simps)

lemma chiedi_catch_simps:
  "storicoDomande (chiedi_catch e n st) = storicoDomande st"
  "domanda (chiedi_catch e n st) = domanda st"
  "requests (chiedi_catch e n st) = requests st"
  "notifications (chiedi_catch e n st) = notifications st"
  "sessionId (chiedi_catch e n st) = sessionId st"
  "filter isErrorMsg (storico (chiedi_catch e (TypingIndicator k) st))
     = filter isErrorMsg (storico st) @ [ErrorMsg errorHtml]"
  by (simp_all add: chiedi_catch_def appendChild_def hideStatus_def removeNode_def
      filter_isErrorMsg_remove isErrorMsg_simps)

text \<open>The continuation of a call, in whatever state it resumes.\<close>

lemma chiedi_try_succeeds:
  assumes "callSucceeds eng t"
  shows "\<exists>st'. chiedi_try eng t q (TypingIndicator k) st
             = (if logRaises eng (payload t) then Inl (TypeError, st')
                else Inr (st'\<lparr>console := console st' @ [LogAnalytics]\<rparr>))
           \<and> storicoDomande st' = saved q (now t) (payload t) (storicoDomande st)
           \<and> domanda st' = [] \<and> requests st' = requests st
           \<and> notifications st' = notifications st
           \<and> filter isErrorMsg (storico st') = filter isErrorMsg (storico st)"
proof -
  from assms obtain status data where o: "outcome t = Response status (Some data)"
    "ok status" "rendersReply eng data"
    by (auto simp: callSucceeds_def split: outcome.splits option.splits)
  then have "chiedi_try eng t q (TypingIndicator k) st
               = chiedi_reply eng q (TypingIndicator k) (now t) data st"
    "payload t = data"
    by (simp_all add: chiedi_try_def payload_def)
  with chiedi_reply_renders [OF o(3), of q k "now t" st] show ?thesis by simp
qed

lemma chiedi_try_fails:
  assumes "callFails eng t"
  shows "\<exists>e st'. chiedi_try eng t q (TypingIndicator k) st = Inl (e, st')
           \<and> sameSession st' st
           \<and> filter isErrorMsg (storico st') = filter isErrorMsg (storico st)"
proof (cases "outcome t")
  case Rejected
  then show ?thesis by (simp add: chiedi_try_def sameSession_steps)
next
  case (Response status body)
  show ?thesis
  proof (cases "ok status")
    case False
    with Response show ?thesis by (simp add: chiedi_try_def sameSession_steps)
  next
    case True
    show ?thesis
    proof (cases body)
      case None
      with True Response show ?thesis by (simp add: chiedi_try_def sameSession_steps)
    next
      case (Some data)
      with True Response assms have "\<not> rendersReply eng data"
        by (simp add: callFails_def)
      from chiedi_reply_raises [OF this, of q k "now t" st]
      show ?thesis using Some True Response by (simp add: chiedi_try_def)
    qed
  qed
qed

lemma catchRuns_iff:
  "catchRuns eng t q (TypingIndicator k) st
     \<longleftrightarrow> callFails eng t \<or> logRaises eng (payload t)"
proof (cases "callSucceeds eng t")
  case True
  from chiedi_try_succeeds [OF this, of q k st] obtain st'
    where "chiedi_try eng t q (TypingIndicator k) st
             = (if logRaises eng (payload t) then Inl (TypeError, st')
                else Inr (st'\<lparr>console := console st' @ [LogAnalytics]\<rparr>))"
    by blast
  with True show ?thesis by (simp add: catchRuns_def callFails_iff)
next
  case False
  then have f: "callFails eng t" by (simp add: callFails_iff)
  from chiedi_try_fails [OF this, of q k st] f show ?thesis
    by (auto simp: catchRuns_def)
qed

lemma chiedi_resume_success:
  assumes "callSucceeds eng t"
  shows "storicoDomande (chiedi_resume eng t q (TypingIndicator k) st)
           = saved q (now t) (payload t) (storicoDomande st)
         \<and> domanda (chiedi_resume eng t q (TypingIndicator k) st) = []
         \<and> requests (chiedi_resume eng t q (TypingIndicator k) st) = requests st
         \<and> notifications (chiedi_resume eng t q (TypingIndicator k) st) = notifications st
         \<and> filter isErrorMsg (storico (chiedi_resume eng t q (TypingIndicator k) st))
             = filter isErrorMsg (storico st)
               @ (if logRaises eng (payload t) then [ErrorMsg errorHtml] else [])"
proof -
  from chiedi_try_succeeds [OF assms, of q k st] obtain st'
    where r: "chiedi_try eng t q (TypingIndicator k) st
             = (if logRaises eng (payload t) then Inl (TypeError, st')
                else Inr (st'\<lparr>console := console st' @ [LogAnalytics]\<rparr>))"
      "storicoDomande st' = saved q (now t) (payload t) (storicoDomande st)"
      "domanda st' = []" "requests st' = requests st" "notifications st' = notifications st"
      "filter isErrorMsg (storico st') = filter isErrorMsg (storico st)"
    by blast
  show ?thesis
  proof (cases "logRaises eng (payload t)")
    case True
    with r(1) have "chiedi_resume eng t q (TypingIndicator k) st
        = chiedi_catch TypeError (TypingIndicator k) st'"
      by (simp add: chiedi_resume_def)
    with r True show ?thesis by (simp add: chiedi_catch_simps)
  next
    case False
    with r(1) have "chiedi_resume eng t q (TypingIndicator k) st
        = st'\<lparr>console := console st' @ [LogAnalytics]\<rparr>"
      by (simp add: chiedi_resume_def)
    with r False show ?thesis by simp
  qed
qed

lemma chiedi_resume_failure:
  assumes "callFails eng t"
  shows "storicoDomande (chiedi_resume eng t q (TypingIndicator k) st) = storicoDomande st
         \<and> domanda (chiedi_resume eng t q (TypingIndicator k) st) = domanda st
         \<and> requests (chiedi_resume eng t q (TypingIndicator k) st) = requests st
         \<and> notifications (chiedi_resume eng t q (TypingIndicator k) st) = notifications st
         \<and> sessionId (chiedi_resume eng t q (TypingIndicator k) st) = sessionId st
         \<and> filter isErrorMsg (storico (chiedi_resume eng t q (TypingIndicator k) st))
             = filter isErrorMsg (storico st) @ [ErrorMsg errorHtml]"
proof -
  from chiedi_try_fails [OF assms, of q k st] obtain e st'
    where t: "chiedi_try eng t q (TypingIndicator k) st = Inl (e, st')"
      "sameSession st' st"
      "filter isErrorMsg (storico st') = filter isErrorMsg (storico st)" by blast
  have "chiedi_resume eng t q (TypingIndicator k) st = chiedi_catch e (TypingIndicator k) st'"
    by (simp add: chiedi_resume_def t(1))
  with t(2,3) show ?thesis by (simp add: chiedi_catch_simps sameSession_def)
qed

text \<open>A call with nothing in between.\<close>

lemma chiedi_success:
  assumes "trim (domanda st) \<noteq> []" "callSucceeds eng t"
  shows "storicoDomande (chiedi eng t st)
           = saved (trim (domanda st)) (now t) (payload t) (storicoDomande st)
         \<and> domanda (chiedi eng t st) = []
         \<and> requests (chiedi eng t st) = requests st @ [sent st]
         \<and> notifications (chiedi eng t st) = notifications st"
proof -
  let ?q = "trim (domanda st)" and ?td = "TypingIndicator (typingDivs st)"
  obtain st' where s: "chiedi_send st = Inr (?q, ?td, st')"
    "storicoDomande st' = storicoDomande st" "requests st' = requests st @ [sent st]"
    "notifications st' = notifications st"
    using chiedi_send_nonblank [OF assms(1)] by blast
  have "chiedi eng t st = chiedi_resume eng t ?q ?td st'" by (simp add: chiedi_def s(1))
  with chiedi_resume_success [OF assms(2), of ?q "typingDivs st" st'] s show ?thesis by simp
qed

lemma chiedi_failure:
  assumes "trim (domanda st) \<noteq> []" "callFails eng t"
  shows "storicoDomande (chiedi eng t st) = storicoDomande st
         \<and> domanda (chiedi eng t st) = domanda st
         \<and> requests (chiedi eng t st) = requests st @ [sent st]
         \<and> notifications (chiedi eng t st) = notifications st
         \<and> sessionId (chiedi eng t st) = sessionId st
         \<and> filter isErrorMsg (storico (chiedi eng t st))
             = filter isErrorMsg (storico st) @ [ErrorMsg errorHtml]"
proof -
  let ?q = "trim (domanda st)" and ?td = "TypingIndicator (typingDivs st)"
  obtain st' where s: "chiedi_send st = Inr (?q, ?td, st')"
    "storicoDomande st' = storicoDomande st" "requests st' = requests st @ [sent st]"
    "notifications st' = notifications st" "domanda st' = domanda st"
    "sessionId st' = sessionId st"
    "filter isErrorMsg (storico st') = filter isErrorMsg (storico st)"
    using chiedi_send_nonblank [OF assms(1)] by blast
  have "chiedi eng t st = chiedi_resume eng t ?q ?td st'" by (simp add: chiedi_def s(1))
  with chiedi_resume_failure [OF assms(2), of ?q "typingDivs st" st'] s show ?thesis by simp
qed

subsection \<open>Sequences of submissions\<close>

lemma saved_drop:
  assumes "e = \<lparr>utente = q, ai = risposta data, timestamp = ts\<rparr>"
  shows "saved q ts data (drop (length h - 10) h) = drop (length (h @ [e]) - 10) (h @ [e])"
proof (cases "length h < 10")
  case True
  then show ?thesis using assms by (simp add: saved_def Let_def)
next
  case False
  then have l: "length (drop (length h - 10) h) = 10" by simp
  then have ne: "drop (length h - 10) h \<noteq> []" by auto
  have "saved q ts data (drop (length h - 10) h) = tl (drop (length h - 10) h @ [e])"
    using l assms by (simp add: saved_def Let_def)
  also have "\<dots> = tl (drop (length h - 10) h) @ [e]" using ne by simp
  also have "\<dots> = drop (Suc (length h - 10)) h @ [e]" by (simp add: drop_Suc tl_drop)
  also have "\<dots> = drop (length (h @ [e]) - 10) (h @ [e])"
  proof -
    have "Suc (length h - 10) = length (h @ [e]) - 10" using False by simp
    moreover have "length (h @ [e]) - 10 \<le> length h" using False by simp
    ultimately show ?thesis by simp
  qed
  finally show ?thesis .
qed

lemma submit_successful:
  assumes "successful eng x"
  shows "storicoDomande (submit eng st x)
           = saved (trim (fst x)) (now (snd x)) (payload (snd x)) (storicoDomande st)"
proof -
  from assms have "trim (domanda (st\<lparr>domanda := fst x\<rparr>)) \<noteq> []" "callSucceeds eng (snd x)"
    by (simp_all add: successful_def)
  from chiedi_success [OF this] show ?thesis
    by (simp add: submit_def quickAsk_def)
qed

lemma submit_unsuccessful:
  assumes "\<not> successful eng x"
  shows "storicoDomande (submit eng st x) = storicoDomande st"
proof (cases "trim (fst x) = []")
  case True
  then have "trim (domanda (st\<lparr>domanda := fst x\<rparr>)) = []" by simp
  from chiedi_blank [OF this, of eng "snd x"] show ?thesis
    by (simp add: submit_def quickAsk_def)
next
  case False
  with assms have "trim (domanda (st\<lparr>domanda := fst x\<rparr>)) \<noteq> []" "callFails eng (snd x)"
    by (simp_all add: successful_def callFails_iff)
  from chiedi_failure [OF this] show ?thesis
    by (simp add: submit_def quickAsk_def)
qed

lemma submissions_history:
  assumes "storicoDomande st = drop (length h - 10) h"
  shows "storicoDomande (foldl (submit eng) st xs)
           = drop (length (h @ map turnEntry (filter (successful eng) xs)) - 10)
               (h @ map turnEntry (filter (successful eng) xs))"
proof (induction xs rule: rev_induct)
  case Nil
  with assms show ?case by simp
next
  case (snoc x xs)
  let ?H = "h @ map turnEntry (filter (successful eng) xs)"
  from snoc have ih: "storicoDomande (foldl (submit eng) st xs) = drop (length ?H - 10) ?H"
    by simp
  show ?case
  proof (cases "successful eng x")
    case True
    have "storicoDomande (foldl (submit eng) st (xs @ [x]))
            = saved (trim (fst x)) (now (snd x)) (payload (snd x)) (drop (length ?H - 10) ?H)"
      using submit_successful [OF True] ih by simp
    also have "\<dots> = drop (length (?H @ [turnEntry x]) - 10) (?H @ [turnEntry x])"
      by (rule saved_drop) (simp add: turnEntry_def)
    finally show ?thesis using True by simp
  next
    case False
    from submit_unsuccessful [OF this] ih False show ?thesis by simp
  qed
qed

lemma saved_length: "length h \<le> 10 \<Longrightarrow> length (saved q ts data h) \<le> 10"
  by (simp add: saved_def Let_def)

lemma chiedi_history_cases:
  "storicoDomande (chiedi eng t st) = storicoDomande st
   \<or> storicoDomande (chiedi eng t st)
       = saved (trim (domanda st)) (now t) (payload t) (storicoDomande st)"
proof (cases "trim (domanda st) = []")
  case True
  from chiedi_blank [OF this, of eng t] show ?thesis by simp
next
  case False
  show ?thesis
  proof (cases "callSucceeds eng t")
    case True
    from chiedi_success [OF False this] show ?thesis by simp
  next
    case f: False
    then have "callFails eng t" by (simp add: callFails_iff)
    from chiedi_failure [OF False this] show ?thesis by simp
  qed
qed

lemma chiedi_history_bounded:
  assumes "length (storicoDomande st) \<le> 10"
  shows "length (storicoDomande (chiedi eng t st)) \<le> 10"
  using chiedi_history_cases [of eng t st] assms saved_length by auto

text \<open>
  C1. A call of \<^verbatim>\<open>chiedi\<close> on a history of at most ten entries leaves a history of at most
  ten entries. Starting from an empty history, after any sequence of submissions the
  history holds the entries of the successful ones in their order, without the oldest
  ones beyond ten: its length is the minimum of the number of successful submissions
  and 10.
\<close>

theorem history_bounded_fifo:
  "(length (storicoDomande st) \<le> 10 \<longrightarrow> length (storicoDomande (chiedi eng t st)) \<le> 10)
   \<and> (storicoDomande st = [] \<longrightarrow>
        length (storicoDomande (foldl (submit eng) st xs))
          = min (length (filter (successful eng) xs)) 10
        \<and> storicoDomande (foldl (submit eng) st xs)
          = drop (length (filter (successful eng) xs) - 10)
              (map turnEntry (filter (successful eng) xs)))"
proof (intro conjI impI)
  assume "length (storicoDomande st) \<le> 10"
  then show "length (storicoDomande (chiedi eng t st)) \<le> 10"
    by (rule chiedi_history_bounded)
next
  assume "storicoDomande st = []"
  then have e: "storicoDomande st = drop (length ([]::entry list) - 10) []" by simp
  from submissions_history [OF e, of eng xs]
  show "length (storicoDomande (foldl (submit eng) st xs))
          = min (length (filter (successful eng) xs)) 10"
    and "storicoDomande (foldl (submit eng) st xs)
          = drop (length (filter (successful eng) xs) - 10)
              (map turnEntry (filter (successful eng) xs))"
    by simp_all
qed

theorem history_bounded_fifo_witness:
  "storicoDomande (initialState (js ''s'')) = []
   \<and> successful sampleEngine (js ''ciao'',
        \<lparr>outcome = Response 200 (Some (JObj [(js ''risposta'', JStr (js ''ok''))])), now = js ''t''\<rparr>)
   \<and> \<not> successful sampleEngine (js ''ciao'', \<lparr>outcome = Rejected, now = js ''t''\<rparr>)
   \<and> length (storicoDomande (foldl (submit sampleEngine) (initialState (js ''s''))
        (replicate 12 (js ''ciao'',
           \<lparr>outcome = Response 200 (Some (JObj [(js ''risposta'', JStr (js ''ok''))])), now = js ''t''\<rparr>)
         @ [(js ''ciao'', \<lparr>outcome = Rejected, now = js ''t''\<rparr>)])))
       = 10
   \<and> length (storicoDomande (chiedi sampleEngine \<lparr>outcome = Rejected, now = js ''t''\<rparr>
        (initialState (js ''s'')))) \<le> 10"
proof -
  let ?x = "(js ''ciao'',
        \<lparr>outcome = Response 200 (Some (JObj [(js ''risposta'', JStr (js ''ok''))])), now = js ''t''\<rparr>)"
  let ?y = "(js ''ciao'', \<lparr>outcome = Rejected, now = js ''t''\<rparr>)"
  have s: "successful sampleEngine ?x"
    by (simp add: successful_def callSucceeds_def rendersReply_def messageRenders_def
        createAIMessage_def suggestionsRender_def metricsRender_def ok_def trim_def js_def
        isSpace_def)
  have f: "\<not> successful sampleEngine ?y"
    by (simp add: successful_def callSucceeds_def)
  have h: "storicoDomande (initialState (js ''s'')) = []" by (simp add: initialState_def)
  from history_bounded_fifo [of "initialState (js ''s'')" sampleEngine
      "\<lparr>outcome = Rejected, now = js ''t''\<rparr>" "replicate 12 ?x @ [?y]"] s f h
  show ?thesis by simp
qed

text \<open>
  C5. When the input field holds only white space (or nothing), \<^verbatim>\<open>chiedi\<close> adds one
  warning notification and changes nothing else: no request is issued and the history
  is as before.
\<close>

theorem chiedi_empty_input:
  assumes "list_all isSpace (domanda st)"
  shows "chiedi eng t st =
           st\<lparr>notifications := notifications st @
                [(js ''Per favore, scrivi una domanda'', Warning)]\<rparr>
         \<and> requests (chiedi eng t st) = requests st
         \<and> storicoDomande (chiedi eng t st) = storicoDomande st"
proof -
  from assms have "trim (domanda st) = []" by (simp add: trim_Nil_iff)
  from chiedi_blank [OF this] show ?thesis by simp
qed

theorem chiedi_empty_input_witness:
  "list_all isSpace (domanda ((initialState (js ''s''))\<lparr>domanda := js ''  ''\<rparr>))
   \<and> notifications (chiedi sampleEngine \<lparr>outcome = Rejected, now = js ''t''\<rparr>
        ((initialState (js ''s''))\<lparr>domanda := js ''  ''\<rparr>))
       = [(js ''Per favore, scrivi una domanda'', Warning)]
   \<and> requests (chiedi sampleEngine \<lparr>outcome = Rejected, now = js ''t''\<rparr>
        ((initialState (js ''s''))\<lparr>domanda := js ''  ''\<rparr>)) = []
   \<and> storicoDomande (chiedi sampleEngine \<lparr>outcome = Rejected, now = js ''t''\<rparr>
        ((initialState (js ''s''))\<lparr>domanda := js ''  ''\<rparr>)) = []"
proof -
  have h: "list_all isSpace (domanda ((initialState (js ''s''))\<lparr>domanda := js ''  ''\<rparr>))"
    by (simp add: js_def isSpace_def)
  from chiedi_empty_input [OF h, of sampleEngine "\<lparr>outcome = Rejected, now = js ''t''\<rparr>"] h
  show ?thesis by (simp add: initialState_def)
qed

subsection \<open>Voice capture\<close>

lemma settled_idle:
  assumes "capturing st = []"
  shows "settled [] st"
  using assms by (simp add: settled_def)

lemma settled_attivaVoce:
  assumes "settled [] st"
  shows "settled [] (attivaVoce supported st)"
  using assms by (auto simp: settled_def attivaVoce_def showNotification_def)

lemma running_alone:
  assumes "length xs \<le> 1" and "i \<in> set xs"
  shows "xs = [i]"
  using assms by (cases xs) auto

lemma settled_closing:
  assumes "settled closing st" and "i \<in> set (capturing st)"
  shows "settled (i # closing) (st\<lparr>voiceFeedbackHidden := True, isListening := False\<rparr>)"
    and "settled (i # closing) (st\<lparr>domanda := s, voiceFeedbackHidden := True, isListening := False\<rparr>)"
    and "settled closing (st\<lparr>domanda := s\<rparr>)"
    and "settled (removeAll i closing) (onend i st)"
proof -
  from assms have c: "capturing st = [i]" by (simp add: settled_def running_alone)
  then show "settled (i # closing) (st\<lparr>voiceFeedbackHidden := True, isListening := False\<rparr>)"
    and "settled (i # closing) (st\<lparr>domanda := s, voiceFeedbackHidden := True, isListening := False\<rparr>)"
    and "settled (removeAll i closing) (onend i st)"
    by (simp_all add: settled_def onend_def)
  from assms(1) show "settled closing (st\<lparr>domanda := s\<rparr>)" by (simp add: settled_def)
qed

lemma settled_mono:
  assumes "settled closing st"
  shows "settled (i # closing) st"
  using assms by (auto simp: settled_def)

lemma settled_ended:
  assumes "settled closing st" and "i \<notin> set (capturing st)"
  shows "settled (removeAll i closing) st"
  using assms by (auto simp: settled_def)

lemma settled_fire:
  assumes "settled closing st"
  shows "settled (if isFinal then i # closing else closing) (fire st (Result i s isFinal))"
    and "settled (i # closing) (fire st (Failure i r))"
    and "settled (removeAll i closing) (fire st (End i))"
proof -
  show "settled (if isFinal then i # closing else closing) (fire st (Result i s isFinal))"
  proof (cases "i \<in> set (capturing st)")
    case True
    from settled_closing(2,3) [OF assms True, of s] True show ?thesis
      by (simp add: onresult_def)
  next
    case False
    with assms settled_mono [OF assms, of i] show ?thesis by simp
  qed
  show "settled (i # closing) (fire st (Failure i r))"
  proof (cases "i \<in> set (capturing st)")
    case True
    from settled_closing(1) [OF assms True] have
      "settled (i # closing) (showNotification (js ''Errore nel riconoscimento vocale: '' @ r) Error
         (st\<lparr>voiceFeedbackHidden := True, isListening := False\<rparr>))"
      by (simp add: settled_def showNotification_def)
    with True show ?thesis by (simp add: onerror_def)
  next
    case False
    with settled_mono [OF assms, of i] show ?thesis by simp
  qed
  show "settled (removeAll i closing) (fire st (End i))"
  proof (cases "i \<in> set (capturing st)")
    case True
    from settled_closing(4) [OF assms True] True show ?thesis by simp
  next
    case False
    with settled_ended [OF assms False] show ?thesis by simp
  qed
qed

lemma orderly_settled:
  assumes "orderly closing es" and "settled closing st"
  shows "length (capturing (foldl fire st es)) \<le> 1"
  using assms
proof (induction es arbitrary: closing st)
  case Nil
  then show ?case by (simp add: settled_def)
next
  case (Cons e es)
  show ?case
  proof (cases e)
    case (Mic supported)
    with Cons.prems have o: "closing = []" "orderly [] es" by auto
    from Cons.prems(2) o(1) have "settled [] (attivaVoce supported st)"
      by (simp add: settled_attivaVoce)
    from Cons.IH [OF o(2) this] Mic show ?thesis by simp
  next
    case (Result i s isFinal)
    with Cons.prems have "orderly (if isFinal then i # closing else closing) es" by simp
    from Cons.IH [OF this settled_fire(1) [OF Cons.prems(2)]] Result show ?thesis by simp
  next
    case (Failure i r)
    with Cons.prems have "orderly (i # closing) es" by simp
    from Cons.IH [OF this settled_fire(2) [OF Cons.prems(2)]] Failure show ?thesis by simp
  next
    case (End i)
    with Cons.prems have "orderly (removeAll i closing) es" by simp
    from Cons.IH [OF this settled_fire(3) [OF Cons.prems(2)]] End show ?thesis by simp
  qed
qed

lemma orderly_take:
  assumes "orderly closing es"
  shows "orderly closing (take n es)"
  using assms
proof (induction es arbitrary: closing n)
  case Nil
  then show ?case by simp
next
  case (Cons e es)
  show ?case
  proof (cases n)
    case 0
    then show ?thesis by simp
  next
    case (Suc m)
    with Cons show ?thesis by (cases e) auto
  qed
qed

text \<open>
  C9, as the code has it. While \<^verbatim>\<open>isListening\<close> is set, \<^verbatim>\<open>attivaVoce\<close> on a platform with a
  recogniser changes nothing: no capture session is started. On a platform without a
  recogniser it adds one error notification and changes nothing else. From a state in
  which no capture session is running, at every moment of an orderly run at most one
  capture session is running.
\<close>

theorem one_session_in_orderly_runs:
  "(isListening st \<longrightarrow>
      attivaVoce True st = st \<and> capturing (attivaVoce True st) = capturing st
      \<and> recognitions (attivaVoce True st) = recognitions st)
   \<and> attivaVoce False st =
       st\<lparr>notifications := notifications st @
            [(js ''Il tuo browser non supporta il riconoscimento vocale'', Error)]\<rparr>
   \<and> (capturing st0 = [] \<and> orderly [] es \<longrightarrow>
        length (capturing (events (take n es) st0)) \<le> 1)"
proof (intro conjI impI)
  assume "isListening st"
  then show "attivaVoce True st = st" and "capturing (attivaVoce True st) = capturing st"
    and "recognitions (attivaVoce True st) = recognitions st"
    by (simp_all add: attivaVoce_def)
next
  show "attivaVoce False st =
       st\<lparr>notifications := notifications st @
            [(js ''Il tuo browser non supporta il riconoscimento vocale'', Error)]\<rparr>"
    by (simp add: attivaVoce_def showNotification_def)
next
  assume a: "capturing st0 = [] \<and> orderly [] es"
  then have "orderly [] (take n es)" by (simp add: orderly_take)
  moreover from a have "settled [] st0" by (simp add: settled_idle)
  ultimately show "length (capturing (events (take n es) st0)) \<le> 1"
    unfolding events_def by (rule orderly_settled)
qed

theorem one_session_in_orderly_runs_witness:
  "isListening (attivaVoce True (initialState (js ''s'')))
   \<and> attivaVoce True (attivaVoce True (initialState (js ''s'')))
       = attivaVoce True (initialState (js ''s''))
   \<and> recognitions (attivaVoce True (attivaVoce True (initialState (js ''s'')))) = 1
   \<and> capturing (initialState (js ''s'')) = []
   \<and> orderly [] [Mic True, Result 0 (js ''ci'') False, Mic True, Result 0 (js ''ciao'') True,
        End 0, Mic True, Failure 1 (js ''no-speech''), End 1]
   \<and> length (capturing (events (take 6 [Mic True, Result 0 (js ''ci'') False, Mic True,
        Result 0 (js ''ciao'') True, End 0, Mic True, Failure 1 (js ''no-speech''), End 1])
        (initialState (js ''s'')))) \<le> 1
   \<and> capturing (events (take 6 [Mic True, Result 0 (js ''ci'') False, Mic True,
        Result 0 (js ''ciao'') True, End 0, Mic True, Failure 1 (js ''no-speech''), End 1])
        (initialState (js ''s''))) = [1]
   \<and> recognitions (events (take 6 [Mic True, Result 0 (js ''ci'') False, Mic True,
        Result 0 (js ''ciao'') True, End 0, Mic True, Failure 1 (js ''no-speech''), End 1])
        (initialState (js ''s''))) = 2"
proof -
  let ?es = "[Mic True, Result 0 (js ''ci'') False, Mic True, Result 0 (js ''ciao'') True,
        End 0, Mic True, Failure 1 (js ''no-speech''), End 1]"
  have h: "isListening (attivaVoce True (initialState (js ''s'')))"
    "recognitions (attivaVoce True (initialState (js ''s''))) = 1"
    by (simp_all add: attivaVoce_def initialState_def)
  have o: "orderly [] ?es" "capturing (initialState (js ''s'')) = []"
    by (simp_all add: initialState_def)
  have e: "capturing (events (take 6 ?es) (initialState (js ''s''))) = [1]"
    "recognitions (events (take 6 ?es) (initialState (js ''s''))) = 2"
    by (simp_all add: events_def attivaVoce_def onresult_def onend_def initialState_def)
  from one_session_in_orderly_runs [of "attivaVoce True (initialState (js ''s''))"
      "initialState (js ''s'')" ?es 6] h o e
  show ?thesis by simp
qed

text \<open>
  The claim C9 as stated fails. The flag that the guard of \<^verbatim>\<open>attivaVoce\<close> tests is cleared
  by the handlers of every session, at a final result already and again at the \<^verbatim>\<open>end\<close>
  event. The user starts a session, its final result comes, the user presses the button
  again before the \<^verbatim>\<open>end\<close> event of the first session, and that event comes next: the
  flag is then clear while the second session, which has had no event, is running, and
  a third press starts a third session beside it. Three recognisers have been started
  and one has ended: two capture sessions are running.
\<close>

theorem stale_end_admits_second_session:
  "capturing (events [Mic True, Result 0 (js ''ciao'') True, Mic True, End 0]
       (initialState (js ''s''))) = [1]
   \<and> \<not> isListening (events [Mic True, Result 0 (js ''ciao'') True, Mic True, End 0]
       (initialState (js ''s'')))
   \<and> capturing (events [Mic True, Result 0 (js ''ciao'') True, Mic True, End 0, Mic True]
       (initialState (js ''s''))) = [1, 2]
   \<and> recognitions (events [Mic True, Result 0 (js ''ciao'') True, Mic True, End 0, Mic True]
       (initialState (js ''s''))) = 3"
  by (simp add: events_def attivaVoce_def onresult_def onend_def initialState_def)

subsection \<open>Failures of a call\<close>

lemma errorHtml_switchboard: "sublist (js ''chiama il centralino: 045 807 1111'') errorHtml"
  unfolding sublist_def
  by (rule exI [of _ "js ''\<newline>      <p class=\"font-semibold\">'' @ [9888, 65039]
        @ js '' Errore di connessione</p>\<newline>      <p class=\"text-sm mt-1\">Non riesco a contattare il server. Riprova tra poco o ''"],
      rule exI [of _ "js ''</p>\<newline>    ''"])
    (simp add: errorHtml_def js_def)

text \<open>
  C4, as the code has it. The \<^verbatim>\<open>catch\<close> block runs when the call fails (the request is
  rejected, the status is not 2xx, the body is not JSON, or the payload raises while it
  is rendered) and when only the closing log of line 120 raises. Its message tells the
  user to phone the switchboard. When the call fails, the continuation of the call, in
  whatever state it resumes, leaves the history as it finds it, adds exactly one error
  message and no notification, and issues no request; a call with a question and with
  nothing in between has then issued exactly one request, and a successful call after it
  saves its entry as it would have without the failure. When only the closing log
  raises, the reply has been rendered and saved before: the error message is added to a
  history that holds the new entry.
\<close>

theorem failed_call_leaves_history:
  "(catchRuns eng t q (TypingIndicator k) st \<longleftrightarrow> callFails eng t \<or> logRaises eng (payload t))
   \<and> sublist (js ''chiama il centralino: 045 807 1111'') errorHtml
   \<and> (callFails eng t \<longrightarrow>
        storicoDomande (chiedi_resume eng t q (TypingIndicator k) st) = storicoDomande st
        \<and> filter isErrorMsg (storico (chiedi_resume eng t q (TypingIndicator k) st))
            = filter isErrorMsg (storico st) @ [ErrorMsg errorHtml]
        \<and> notifications (chiedi_resume eng t q (TypingIndicator k) st) = notifications st
        \<and> requests (chiedi_resume eng t q (TypingIndicator k) st) = requests st)
   \<and> (callFails eng t \<and> trim (domanda st) \<noteq> [] \<longrightarrow>
        storicoDomande (chiedi eng t st) = storicoDomande st
        \<and> filter isErrorMsg (storico (chiedi eng t st))
            = filter isErrorMsg (storico st) @ [ErrorMsg errorHtml]
        \<and> notifications (chiedi eng t st) = notifications st
        \<and> requests (chiedi eng t st) = requests st @ [sent st]
        \<and> (callSucceeds eng t' \<longrightarrow>
             storicoDomande (chiedi eng t' (chiedi eng t st))
               = saved (trim (domanda st)) (now t') (payload t') (storicoDomande st)
             \<and> requests (chiedi eng t' (chiedi eng t st)) = requests st @ [sent st, sent st]))
   \<and> (callSucceeds eng t \<and> logRaises eng (payload t) \<longrightarrow>
        storicoDomande (chiedi_resume eng t q (TypingIndicator k) st)
          = saved q (now t) (payload t) (storicoDomande st)
        \<and> filter isErrorMsg (storico (chiedi_resume eng t q (TypingIndicator k) st))
            = filter isErrorMsg (storico st) @ [ErrorMsg errorHtml])"
proof (intro conjI impI)
  show "catchRuns eng t q (TypingIndicator k) st \<longleftrightarrow> callFails eng t \<or> logRaises eng (payload t)"
    by (rule catchRuns_iff)
  show "sublist (js ''chiama il centralino: 045 807 1111'') errorHtml"
    by (rule errorHtml_switchboard)
next
  assume "callFails eng t"
  from chiedi_resume_failure [OF this, of q k st]
  show "storicoDomande (chiedi_resume eng t q (TypingIndicator k) st) = storicoDomande st"
    and "filter isErrorMsg (storico (chiedi_resume eng t q (TypingIndicator k) st))
            = filter isErrorMsg (storico st) @ [ErrorMsg errorHtml]"
    and "notifications (chiedi_resume eng t q (TypingIndicator k) st) = notifications st"
    and "requests (chiedi_resume eng t q (TypingIndicator k) st) = requests st"
    by simp_all
next
  assume a: "callFails eng t \<and> trim (domanda st) \<noteq> []"
  then have f: "storicoDomande (chiedi eng t st) = storicoDomande st"
    "domanda (chiedi eng t st) = domanda st"
    "requests (chiedi eng t st) = requests st @ [sent st]"
    "notifications (chiedi eng t st) = notifications st"
    "sessionId (chiedi eng t st) = sessionId st"
    "filter isErrorMsg (storico (chiedi eng t st))
       = filter isErrorMsg (storico st) @ [ErrorMsg errorHtml]"
    using chiedi_failure [of st eng t] by simp_all
  from f show "storicoDomande (chiedi eng t st) = storicoDomande st"
    and "filter isErrorMsg (storico (chiedi eng t st))
            = filter isErrorMsg (storico st) @ [ErrorMsg errorHtml]"
    and "notifications (chiedi eng t st) = notifications st"
    and "requests (chiedi eng t st) = requests st @ [sent st]"
    by simp_all
  assume s: "callSucceeds eng t'"
  from f a have "trim (domanda (chiedi eng t st)) \<noteq> []" by simp
  from chiedi_success [OF this s] f
  show "storicoDomande (chiedi eng t' (chiedi eng t st))
               = saved (trim (domanda st)) (now t') (payload t') (storicoDomande st)"
    and "requests (chiedi eng t' (chiedi eng t st)) = requests st @ [sent st, sent st]"
    by (simp_all add: sent_def)
next
  assume a: "callSucceeds eng t \<and> logRaises eng (payload t)"
  then have "callSucceeds eng t" by simp
  from chiedi_resume_success [OF this, of q k st] a
  show "storicoDomande (chiedi_resume eng t q (TypingIndicator k) st)
          = saved q (now t) (payload t) (storicoDomande st)"
    and "filter isErrorMsg (storico (chiedi_resume eng t q (TypingIndicator k) st))
            = filter isErrorMsg (storico st) @ [ErrorMsg errorHtml]"
    by simp_all
qed

theorem failed_call_leaves_history_witness:
  "callFails sampleEngine \<lparr>outcome = Rejected, now = js ''t''\<rparr>
   \<and> callFails sampleEngine
        \<lparr>outcome = Response 500 (Some (JObj [(js ''risposta'', JStr (js ''ok''))])), now = js ''t''\<rparr>
   \<and> callFails sampleEngine \<lparr>outcome = Response 200 None, now = js ''t''\<rparr>
   \<and> callFails sampleEngine \<lparr>outcome = Response 200 (Some (JObj [])), now = js ''t''\<rparr>
   \<and> trim (domanda ((initialState (js ''s''))\<lparr>domanda := js ''ciao''\<rparr>)) \<noteq> []
   \<and> callSucceeds sampleEngine
        \<lparr>outcome = Response 200 (Some (JObj [(js ''risposta'', JStr (js ''ok''))])), now = js ''u''\<rparr>
   \<and> storicoDomande (chiedi_resume sampleEngine \<lparr>outcome = Rejected, now = js ''t''\<rparr>
        (js ''ciao'') (TypingIndicator 0) (initialState (js ''s''))) = []
   \<and> storicoDomande (chiedi_resume sampleEngine
        \<lparr>outcome = Response 500 (Some (JObj [(js ''risposta'', JStr (js ''ok''))])), now = js ''t''\<rparr>
        (js ''ciao'') (TypingIndicator 0) (initialState (js ''s''))) = []
   \<and> storicoDomande (chiedi_resume sampleEngine \<lparr>outcome = Response 200 None, now = js ''t''\<rparr>
        (js ''ciao'') (TypingIndicator 0) (initialState (js ''s''))) = []
   \<and> storicoDomande (chiedi sampleEngine \<lparr>outcome = Response 200 (Some (JObj [])), now = js ''t''\<rparr>
        ((initialState (js ''s''))\<lparr>domanda := js ''ciao''\<rparr>)) = []
   \<and> filter isErrorMsg (storico (chiedi sampleEngine
        \<lparr>outcome = Response 200 (Some (JObj [])), now = js ''t''\<rparr>
        ((initialState (js ''s''))\<lparr>domanda := js ''ciao''\<rparr>))) = [ErrorMsg errorHtml]
   \<and> length (requests (chiedi sampleEngine
        \<lparr>outcome = Response 200 (Some (JObj [])), now = js ''t''\<rparr>
        ((initialState (js ''s''))\<lparr>domanda := js ''ciao''\<rparr>))) = 1
   \<and> storicoDomande
        (chiedi sampleEngine
           \<lparr>outcome = Response 200 (Some (JObj [(js ''risposta'', JStr (js ''ok''))])), now = js ''u''\<rparr>
           (chiedi sampleEngine \<lparr>outcome = Response 200 (Some (JObj [])), now = js ''t''\<rparr>
              ((initialState (js ''s''))\<lparr>domanda := js ''ciao''\<rparr>)))
       = [\<lparr>utente = js ''ciao'', ai = js ''ok'', timestamp = js ''u''\<rparr>]
   \<and> callSucceeds strictEngine
        \<lparr>outcome = Response 200 (Some (JObj [(js ''risposta'', JStr (js ''ok'')),
            (js ''cached'', JObj [(js ''toString'', JNum 1)])])), now = js ''t''\<rparr>
   \<and> logRaises strictEngine (JObj [(js ''risposta'', JStr (js ''ok'')),
            (js ''cached'', JObj [(js ''toString'', JNum 1)])])
   \<and> catchRuns strictEngine
        \<lparr>outcome = Response 200 (Some (JObj [(js ''risposta'', JStr (js ''ok'')),
            (js ''cached'', JObj [(js ''toString'', JNum 1)])])), now = js ''t''\<rparr>
        (js ''ciao'') (TypingIndicator 0) (initialState (js ''s''))
   \<and> storicoDomande (chiedi_resume strictEngine
        \<lparr>outcome = Response 200 (Some (JObj [(js ''risposta'', JStr (js ''ok'')),
            (js ''cached'', JObj [(js ''toString'', JNum 1)])])), now = js ''t''\<rparr>
        (js ''ciao'') (TypingIndicator 0) (initialState (js ''s'')))
       = [\<lparr>utente = js ''ciao'', ai = js ''ok'', timestamp = js ''t''\<rparr>]"
proof -
  let ?s0 = "initialState (js ''s'')"
  let ?st = "(initialState (js ''s''))\<lparr>domanda := js ''ciao''\<rparr>"
  let ?good = "JObj [(js ''risposta'', JStr (js ''ok''))]"
  let ?late = "JObj [(js ''risposta'', JStr (js ''ok'')),
            (js ''cached'', JObj [(js ''toString'', JNum 1)])]"
  let ?t1 = "\<lparr>outcome = Rejected, now = js ''t''\<rparr>"
  let ?t2 = "\<lparr>outcome = Response 500 (Some ?good), now = js ''t''\<rparr>"
  let ?t3 = "\<lparr>outcome = Response 200 None, now = js ''t''\<rparr>"
  let ?t4 = "\<lparr>outcome = Response 200 (Some (JObj [])), now = js ''t''\<rparr>"
  let ?t5 = "\<lparr>outcome = Response 200 (Some ?late), now = js ''t''\<rparr>"
  let ?t' = "\<lparr>outcome = Response 200 (Some ?good), now = js ''u''\<rparr>"
  have tr: "trim (js ''ciao'') = js ''ciao''" by (simp add: trim_def js_def isSpace_def)
  have h0: "trim (domanda ?st) \<noteq> []" using tr by (simp add: js_def)
  have h1: "callFails sampleEngine ?t1" by (simp add: callFails_def)
  have h2: "callFails sampleEngine ?t2" by (simp add: callFails_def ok_def)
  have h3: "callFails sampleEngine ?t3" by (simp add: callFails_def ok_def)
  have h4: "callFails sampleEngine ?t4"
    by (simp add: callFails_def ok_def rendersReply_def messageRenders_def createAIMessage_def)
  have h5: "callSucceeds strictEngine ?t5"
    by (simp add: callSucceeds_def rendersReply_def messageRenders_def createAIMessage_def
        suggestionsRender_def metricsRender_def ok_def js_def)
  have h6: "logRaises strictEngine ?late"
    by (simp add: logRaises_def strictEngine_def objectText_def js_def)
  have h': "callSucceeds sampleEngine ?t'"
    by (simp add: callSucceeds_def rendersReply_def messageRenders_def createAIMessage_def
        suggestionsRender_def metricsRender_def ok_def js_def)
  have p: "payload ?t5 = ?late" "payload ?t' = ?good" by (simp_all add: payload_def)
  have r: "risposta ?late = js ''ok''" "risposta ?good = js ''ok''"
    by (simp_all add: risposta_def js_def)
  have i: "storicoDomande ?s0 = []" "storico ?s0 = []" "requests ?s0 = []"
    "storicoDomande ?st = []" "storico ?st = []" "requests ?st = []"
    by (simp_all add: initialState_def)
  from failed_call_leaves_history [of sampleEngine ?t1 "js ''ciao''" 0 ?s0 ?t'] h1 i
  have 1: "storicoDomande (chiedi_resume sampleEngine ?t1 (js ''ciao'') (TypingIndicator 0) ?s0) = []"
    by simp
  from failed_call_leaves_history [of sampleEngine ?t2 "js ''ciao''" 0 ?s0 ?t'] h2 i
  have 2: "storicoDomande (chiedi_resume sampleEngine ?t2 (js ''ciao'') (TypingIndicator 0) ?s0) = []"
    by simp
  from failed_call_leaves_history [of sampleEngine ?t3 "js ''ciao''" 0 ?s0 ?t'] h3 i
  have 3: "storicoDomande (chiedi_resume sampleEngine ?t3 (js ''ciao'') (TypingIndicator 0) ?s0) = []"
    by simp
  from failed_call_leaves_history [of sampleEngine ?t4 "js ''ciao''" 0 ?st ?t'] h4 h0 h' i(4-6)
  have 4: "storicoDomande (chiedi sampleEngine ?t4 ?st) = []"
    "filter isErrorMsg (storico (chiedi sampleEngine ?t4 ?st)) = [ErrorMsg errorHtml]"
    "length (requests (chiedi sampleEngine ?t4 ?st)) = 1"
    "storicoDomande (chiedi sampleEngine ?t' (chiedi sampleEngine ?t4 ?st))
       = saved (trim (domanda ?st)) (now ?t') (payload ?t') []"
    by simp_all
  have 5: "saved (trim (domanda ?st)) (now ?t') (payload ?t') []
       = [\<lparr>utente = js ''ciao'', ai = js ''ok'', timestamp = js ''u''\<rparr>]"
    using tr by (simp add: saved_def p r)
  from failed_call_leaves_history [of strictEngine ?t5 "js ''ciao''" 0 ?s0 ?t'] h5 h6 i(1-3)
  have 6: "catchRuns strictEngine ?t5 (js ''ciao'') (TypingIndicator 0) ?s0"
    "storicoDomande (chiedi_resume strictEngine ?t5 (js ''ciao'') (TypingIndicator 0) ?s0)
       = saved (js ''ciao'') (now ?t5) (payload ?t5) []"
    by (simp_all add: p)
  have 7: "saved (js ''ciao'') (now ?t5) (payload ?t5) []
       = [\<lparr>utente = js ''ciao'', ai = js ''ok'', timestamp = js ''t''\<rparr>]"
    by (simp add: saved_def p r)
  from h0 h1 h2 h3 h4 h5 h6 h' 1 2 3 4 5 6 7 show ?thesis by simp
qed

text \<open>
  The claim C4 as stated fails. The payload \<^verbatim>\<open>{"risposta":"ok","cached":{"toString":1}}\<close>
  is rendered and saved, then the closing log raises on the text of \<^verbatim>\<open>cached\<close>: the
  \<^verbatim>\<open>catch\<close> block adds its error message although the history holds the new entry.
\<close>

theorem late_raise_after_save:
  "storicoDomande (chiedi strictEngine
       \<lparr>outcome = Response 200 (Some (JObj [(js ''risposta'', JStr (js ''ok'')),
           (js ''cached'', JObj [(js ''toString'', JNum 1)])])), now = js ''t''\<rparr>
       ((initialState (js ''s''))\<lparr>domanda := js ''ciao''\<rparr>))
     = [\<lparr>utente = js ''ciao'', ai = js ''ok'', timestamp = js ''t''\<rparr>]
   \<and> filter isErrorMsg (storico (chiedi strictEngine
       \<lparr>outcome = Response 200 (Some (JObj [(js ''risposta'', JStr (js ''ok'')),
           (js ''cached'', JObj [(js ''toString'', JNum 1)])])), now = js ''t''\<rparr>
       ((initialState (js ''s''))\<lparr>domanda := js ''ciao''\<rparr>)))
     = [ErrorMsg errorHtml]"
proof -
  let ?st = "(initialState (js ''s''))\<lparr>domanda := js ''ciao''\<rparr>"
  let ?late = "JObj [(js ''risposta'', JStr (js ''ok'')),
            (js ''cached'', JObj [(js ''toString'', JNum 1)])]"
  let ?t = "\<lparr>outcome = Response 200 (Some ?late), now = js ''t''\<rparr>"
  have tr: "trim (js ''ciao'') = js ''ciao''" by (simp add: trim_def js_def isSpace_def)
  then have h0: "trim (domanda ?st) \<noteq> []" by (simp add: js_def)
  have h1: "callSucceeds strictEngine ?t"
    by (simp add: callSucceeds_def rendersReply_def messageRenders_def createAIMessage_def
        suggestionsRender_def metricsRender_def ok_def js_def)
  have h2: "logRaises strictEngine (payload ?t)"
    by (simp add: payload_def logRaises_def strictEngine_def objectText_def js_def)
  obtain st' where s: "chiedi_send ?st = Inr (trim (domanda ?st), TypingIndicator (typingDivs ?st), st')"
    "storicoDomande st' = storicoDomande ?st"
    "filter isErrorMsg (storico st') = filter isErrorMsg (storico ?st)"
    using chiedi_send_nonblank [OF h0] by blast
  have c: "chiedi strictEngine ?t ?st
      = chiedi_resume strictEngine ?t (trim (domanda ?st)) (TypingIndicator (typingDivs ?st)) st'"
    by (simp add: chiedi_def s(1))
  have "saved (js ''ciao'') (js ''t'') ?late []
      = [\<lparr>utente = js ''ciao'', ai = js ''ok'', timestamp = js ''t''\<rparr>]"
    by (simp add: saved_def risposta_def js_def)
  with chiedi_resume_success [OF h1, of "trim (domanda ?st)" "typingDivs ?st" st'] h2 s(2,3) tr
  show ?thesis unfolding c by (simp add: initialState_def payload_def)
qed

subsection \<open>The input field\<close>

text \<open>
  C2, as the code has it. The input field is written at line 117 only: the part of
  \<^verbatim>\<open>chiedi\<close> before the request leaves it as it is, and so does the \<^verbatim>\<open>catch\<close> block. The
  continuation of a call, in whatever state it resumes, clears the field when the reply
  has been rendered and saved, also when the closing log then raises and the \<^verbatim>\<open>catch\<close>
  block runs; when the call fails before that, the continuation leaves the field as it
  finds it. So does a call with a question and with nothing between its request and its
  reply. The field belongs to the page and not to the call: a reply that is rendered
  clears whatever the field holds by then.
\<close>

theorem input_cleared_when_reply_saved:
  "domanda (case chiedi_send st of Inl st' \<Rightarrow> st' | Inr (q', n', st') \<Rightarrow> st') = domanda st
   \<and> domanda (chiedi_catch e n st) = domanda st
   \<and> domanda (chiedi_resume eng t q (TypingIndicator k) st)
       = (if callSucceeds eng t then [] else domanda st)
   \<and> (callSucceeds eng t \<and> logRaises eng (payload t) \<longrightarrow>
        catchRuns eng t q (TypingIndicator k) st
        \<and> domanda (chiedi_resume eng t q (TypingIndicator k) st) = [])
   \<and> (trim (domanda st) \<noteq> [] \<longrightarrow>
        domanda (chiedi eng t st) = (if callSucceeds eng t then [] else domanda st))"
proof (intro conjI impI)
  show "domanda (case chiedi_send st of Inl st' \<Rightarrow> st' | Inr (q', n', st') \<Rightarrow> st') = domanda st"
  proof (cases "trim (domanda st) = []")
    case True
    from chiedi_send_blank [OF this] show ?thesis by (simp add: showNotification_def)
  next
    case False
    from chiedi_send_nonblank [OF this] show ?thesis by auto
  qed
  show "domanda (chiedi_catch e n st) = domanda st" by (simp add: chiedi_catch_simps)
  show r: "domanda (chiedi_resume eng t q (TypingIndicator k) st)
       = (if callSucceeds eng t then [] else domanda st)"
  proof (cases "callSucceeds eng t")
    case True
    from chiedi_resume_success [OF this, of q k st] True show ?thesis by simp
  next
    case False
    then have "callFails eng t" by (simp add: callFails_iff)
    from chiedi_resume_failure [OF this, of q k st] False show ?thesis by simp
  qed
  show "domanda (chiedi eng t st) = (if callSucceeds eng t then [] else domanda st)"
    if n: "trim (domanda st) \<noteq> []"
  proof (cases "callSucceeds eng t")
    case True
    from chiedi_success [OF n this] True show ?thesis by simp
  next
    case False
    then have "callFails eng t" by (simp add: callFails_iff)
    from chiedi_failure [OF n this] False show ?thesis by simp
  qed
next
  assume a: "callSucceeds eng t \<and> logRaises eng (payload t)"
  then show "catchRuns eng t q (TypingIndicator k) st" by (simp add: catchRuns_iff)
  from a chiedi_resume_success [of eng t q k st]
  show "domanda (chiedi_resume eng t q (TypingIndicator k) st) = []" by simp
qed

theorem input_cleared_when_reply_saved_witness:
  "callSucceeds strictEngine
        \<lparr>outcome = Response 200 (Some (JObj [(js ''risposta'', JStr (js ''ok'')),
            (js ''cached'', JObj [(js ''toString'', JNum 1)])])), now = js ''t''\<rparr>
   \<and> logRaises strictEngine (JObj [(js ''risposta'', JStr (js ''ok'')),
            (js ''cached'', JObj [(js ''toString'', JNum 1)])])
   \<and> catchRuns strictEngine
        \<lparr>outcome = Response 200 (Some (JObj [(js ''risposta'', JStr (js ''ok'')),
            (js ''cached'', JObj [(js ''toString'', JNum 1)])])), now = js ''t''\<rparr>
        (js ''ciao'') (TypingIndicator 0) ((initialState (js ''s''))\<lparr>domanda := js ''ciao''\<rparr>)
   \<and> domanda (chiedi_resume strictEngine
        \<lparr>outcome = Response 200 (Some (JObj [(js ''risposta'', JStr (js ''ok'')),
            (js ''cached'', JObj [(js ''toString'', JNum 1)])])), now = js ''t''\<rparr>
        (js ''ciao'') (TypingIndicator 0) ((initialState (js ''s''))\<lparr>domanda := js ''ciao''\<rparr>)) = []
   \<and> trim (domanda ((initialState (js ''s''))\<lparr>domanda := js ''ciao''\<rparr>)) \<noteq> []
   \<and> domanda (chiedi strictEngine
        \<lparr>outcome = Response 200 (Some (JObj [(js ''risposta'', JStr (js ''ok''))])), now = js ''u''\<rparr>
        ((initialState (js ''s''))\<lparr>domanda := js ''ciao''\<rparr>)) = []
   \<and> domanda (chiedi strictEngine \<lparr>outcome = Response 404 None, now = js ''t''\<rparr>
        ((initialState (js ''s''))\<lparr>domanda := js ''ciao''\<rparr>)) = js ''ciao''
   \<and> domanda (chiedi_resume strictEngine
        \<lparr>outcome = Response 200 (Some (JObj [(js ''risposta'', JStr (js ''ok''))])), now = js ''u''\<rparr>
        (js ''ciao'') (TypingIndicator 0) ((initialState (js ''s''))\<lparr>domanda := js ''altro''\<rparr>)) = []"
proof -
  let ?st = "(initialState (js ''s''))\<lparr>domanda := js ''ciao''\<rparr>"
  let ?st2 = "(initialState (js ''s''))\<lparr>domanda := js ''altro''\<rparr>"
  let ?good = "JObj [(js ''risposta'', JStr (js ''ok''))]"
  let ?late = "JObj [(js ''risposta'', JStr (js ''ok'')),
            (js ''cached'', JObj [(js ''toString'', JNum 1)])]"
  let ?t = "\<lparr>outcome = Response 404 None, now = js ''t''\<rparr>"
  let ?t5 = "\<lparr>outcome = Response 200 (Some ?late), now = js ''t''\<rparr>"
  let ?t' = "\<lparr>outcome = Response 200 (Some ?good), now = js ''u''\<rparr>"
  have h0: "trim (domanda ?st) \<noteq> []" by (simp add: trim_def js_def isSpace_def)
  have h1: "\<not> callSucceeds strictEngine ?t" by (simp add: callSucceeds_def ok_def)
  have h5: "callSucceeds strictEngine ?t5"
    by (simp add: callSucceeds_def rendersReply_def messageRenders_def createAIMessage_def
        suggestionsRender_def metricsRender_def ok_def js_def)
  have h6: "logRaises strictEngine ?late"
    by (simp add: logRaises_def strictEngine_def objectText_def js_def)
  have h': "callSucceeds strictEngine ?t'"
    by (simp add: callSucceeds_def rendersReply_def messageRenders_def createAIMessage_def
        suggestionsRender_def metricsRender_def ok_def js_def)
  have p: "payload ?t5 = ?late" by (simp add: payload_def)
  from input_cleared_when_reply_saved [where st = "?st" and eng = strictEngine and t = "?t5" and q = "js ''ciao''" and k = 0] h5 h6 p
  have 1: "catchRuns strictEngine ?t5 (js ''ciao'') (TypingIndicator 0) ?st"
    "domanda (chiedi_resume strictEngine ?t5 (js ''ciao'') (TypingIndicator 0) ?st) = []"
    by simp_all
  from input_cleared_when_reply_saved [where st = "?st" and eng = strictEngine and t = "?t'" and q = "js ''ciao''" and k = 0] h0 h'
  have 2: "domanda (chiedi strictEngine ?t' ?st) = []" by simp
  from input_cleared_when_reply_saved [where st = "?st" and eng = strictEngine and t = "?t" and q = "js ''ciao''" and k = 0] h0 h1
  have 3: "domanda (chiedi strictEngine ?t ?st) = js ''ciao''" by simp
  from input_cleared_when_reply_saved [where st = "?st2" and eng = strictEngine and t = "?t'" and q = "js ''ciao''" and k = 0] h'
  have 4: "domanda (chiedi_resume strictEngine ?t' (js ''ciao'') (TypingIndicator 0) ?st2) = []"
    by simp
  from h0 h5 h6 1 2 3 4 show ?thesis by simp
qed

text \<open>
  The claim C2 as stated fails: after a rejected request the input field still holds
  the text.
\<close>

theorem input_kept_on_failure:
  "domanda (chiedi sampleEngine \<lparr>outcome = Rejected, now = js ''t''\<rparr>
     ((initialState (js ''s''))\<lparr>domanda := js ''ciao''\<rparr>)) \<noteq> []"
  by (simp add: chiedi_def chiedi_send_def chiedi_resume_def chiedi_try_def chiedi_catch_def
      trim_def js_def isSpace_def initialState_def Let_def appendChild_def showStatus_def
      hideStatus_def removeNode_def)

text \<open>
  Two calls in flight. The user asks \<^verbatim>\<open>uno\<close>, types \<^verbatim>\<open>due\<close> and asks again before the first
  reply; the first reply is rendered, then the second request is rejected. The field
  was cleared by the first reply while the second call was waiting, and the text of the
  failed call is not in the field; the history holds the first turn only.
\<close>

lemma overlapping_calls_share_field:
  "domanda (acts sampleEngine
       [Typed (js ''uno''), Asked, Typed (js ''due''), Asked,
        Replied 0 \<lparr>outcome = Response 200 (Some (JObj [(js ''risposta'', JStr (js ''ok''))])),
                   now = js ''t''\<rparr>]
       (initialState (js ''s''))) = []
   \<and> domanda (acts sampleEngine
       [Typed (js ''uno''), Asked, Typed (js ''due''), Asked,
        Replied 0 \<lparr>outcome = Response 200 (Some (JObj [(js ''risposta'', JStr (js ''ok''))])),
                   now = js ''t''\<rparr>,
        Replied 0 \<lparr>outcome = Rejected, now = js ''u''\<rparr>]
       (initialState (js ''s''))) = []
   \<and> storicoDomande (acts sampleEngine
       [Typed (js ''uno''), Asked, Typed (js ''due''), Asked,
        Replied 0 \<lparr>outcome = Response 200 (Some (JObj [(js ''risposta'', JStr (js ''ok''))])),
                   now = js ''t''\<rparr>,
        Replied 0 \<lparr>outcome = Rejected, now = js ''u''\<rparr>]
       (initialState (js ''s'')))
     = [\<lparr>utente = js ''uno'', ai = js ''ok'', timestamp = js ''t''\<rparr>]"
  by (simp add: acts_def chiedi_send_def chiedi_resume_def chiedi_try_def chiedi_reply_def
      chiedi_catch_def createAIMessage_def risposta_def ok_def
      trim_def js_def isSpace_def initialState_def Let_def appendChild_def showStatus_def
      hideStatus_def removeNode_def sampleEngine_def)


section \<open>Properties of the patterns\<close>

lemma replaceAll_Nil: "matchAt r [] = None \<Longrightarrow> replaceAll r f [] = []"
  by simp

lemma replaceAll_skip:
  "matchAt r (c # cs) = None \<Longrightarrow> replaceAll r f (c # cs) = c # replaceAll r f cs"
  by simp

lemma replaceAll_hit:
  "matchAt r s = Some n \<Longrightarrow> 0 < n \<Longrightarrow> n \<le> length s \<Longrightarrow>
     replaceAll r f s = f (take n s) @ replaceAll r f (drop n s)"
  by simp

declare replaceAll.simps [simp del]

lemmas rx_eval = chr_def chr_i_def opt_def plus_def eos_def matchAt_def isDigit_def isSpace_def
  canonicalize_def urlChar_def isTrailing_def js_def replaceAll_Nil replaceAll_skip replaceAll_hit

subsection \<open>A match is never empty\<close>

lemma shortening_Some: "shortening Some"
  by (simp add: shortening_def)

lemma consuming_shortening: "consuming k \<Longrightarrow> shortening k"
  by (auto simp: consuming_def shortening_def dest: less_imp_le)

lemma consuming_cls: "shortening k \<Longrightarrow> consuming (cls P k)"
  unfolding consuming_def shortening_def
proof (intro allI impI)
  fix x rest
  assume k: "\<forall>x rest. k x = Some rest \<longrightarrow> length rest \<le> length x"
    and m: "cls P k x = Some rest"
  then obtain c cs where x: "x = c # cs" "k cs = Some rest"
    by (cases x) (auto split: if_splits)
  with k have "length rest \<le> length cs" by blast
  with x show "length rest < length x" by simp
qed

lemma shortening_opt: "shortening (r k) \<Longrightarrow> shortening k \<Longrightarrow> shortening (opt r k)"
  by (auto simp: shortening_def opt_def split: option.splits)

lemma shortening_star: "shortening k \<Longrightarrow> shortening (star P k)"
  unfolding shortening_def
proof (intro allI impI)
  fix x rest
  assume k: "\<forall>x rest. k x = Some rest \<longrightarrow> length rest \<le> length x"
  show "star P k x = Some rest \<Longrightarrow> length rest \<le> length x"
  proof (induction x)
    case Nil
    then have "k [] = Some rest" by simp
    with k show ?case by blast
  next
    case (Cons c cs)
    show ?case
    proof (cases "P c \<and> star P k cs \<noteq> None")
      case True
      with Cons.prems have "star P k cs = Some rest" by auto
      with Cons.IH show ?thesis by simp
    next
      case False
      with Cons.prems have "k (c # cs) = Some rest" by (auto split: if_splits)
      with k show ?thesis by blast
    qed
  qed
qed

lemma consuming_plus: "shortening k \<Longrightarrow> consuming (plus P k)"
  by (simp add: plus_def consuming_cls shortening_star)

lemmas consuming_intros = consuming_cls consuming_plus shortening_opt shortening_star
  shortening_Some consuming_shortening

lemma matchAt_positive:
  assumes "neverEmpty r" and "matchAt r s = Some n"
  shows "0 < n \<and> n \<le> length s"
  using assms by (auto simp: neverEmpty_def consuming_def matchAt_def split: option.splits)

lemma neverEmpty_urlRegex: "neverEmpty urlRegex"
  unfolding neverEmpty_def by (simp add: urlRegex_def chr_def) (intro consuming_intros)

lemma neverEmpty_phoneRegex: "neverEmpty phoneRegex"
  unfolding neverEmpty_def by (simp add: phoneRegex_def digits34_def) (intro consuming_intros)

lemma neverEmpty_timeRegex: "neverEmpty timeRegex"
  unfolding neverEmpty_def by (simp add: timeRegex_def chr_def) (intro consuming_intros)

lemma neverEmpty_prontoRegex: "neverEmpty prontoRegex"
  unfolding neverEmpty_def by (simp add: prontoRegex_def chr_i_def) (intro consuming_intros)

lemma neverEmpty_cupRegex: "neverEmpty cupRegex"
  unfolding neverEmpty_def by (simp add: cupRegex_def chr_def) (intro consuming_intros)

subsection \<open>Replacement of all matches\<close>

lemma replaceAll_match:
  assumes "neverEmpty r" and "matchAt r s = Some n"
  shows "replaceAll r f s = f (take n s) @ replaceAll r f (drop n s)"
  using matchAt_positive [OF assms] assms(2) by (simp add: replaceAll_hit)

lemma replaceAll_id:
  assumes "\<And>t. suffix t s \<Longrightarrow> matchAt r t = None"
  shows "replaceAll r f s = s"
  using assms
proof (induction s)
  case Nil
  then show ?case by (simp add: replaceAll_Nil)
next
  case (Cons c cs)
  have "matchAt r (c # cs) = None" by (rule Cons.prems) simp
  moreover have "replaceAll r f cs = cs"
    by (rule Cons.IH, rule Cons.prems) (simp add: suffix_Cons)
  ultimately show ?case by (simp add: replaceAll_skip)
qed

subsection \<open>linkify\<close>

lemma star_Some: "star P Some s = Some (dropWhile P s)"
  by (induction s) simp_all

lemma star_eos: "star P (eos Some) s = (if list_all P s then Some [] else None)"
  by (induction s) (simp_all add: eos_def)

lemma matchAt_trailing:
  "matchAt trailingRegex s = (if list_all isTrailing s then Some (length s) else None)"
  by (simp add: matchAt_def trailingRegex_def star_eos)

lemma cleanUrl_eq: "cleanUrl url = rev (dropWhile isTrailing (rev url))"
proof (induction url)
  case Nil
  show ?case by (simp add: cleanUrl_def matchAt_trailing)
next
  case (Cons c cs)
  show ?case
  proof (cases "list_all isTrailing (c # cs)")
    case True
    then have "dropWhile isTrailing (rev (c # cs)) = []"
      by (simp add: dropWhile_eq_Nil_conv list_all_iff)
    with True show ?thesis by (simp add: cleanUrl_def matchAt_trailing)
  next
    case False
    have "cleanUrl (c # cs) = c # cleanUrl cs"
      using False by (simp add: cleanUrl_def matchAt_trailing)
    also have "\<dots> = c # rev (dropWhile isTrailing (rev cs))" using Cons by simp
    also have "\<dots> = rev (dropWhile isTrailing (rev (c # cs)))"
    proof (cases "list_all isTrailing cs")
      case True
      with False have c: "\<not> isTrailing c" by simp
      from True have "dropWhile isTrailing (rev cs) = []"
        by (simp add: dropWhile_eq_Nil_conv list_all_iff)
      moreover from True c have "dropWhile isTrailing (rev cs @ [c]) = [c]"
        by (simp add: dropWhile_append list_all_iff)
      ultimately show ?thesis by simp
    next
      case False
      then have "dropWhile isTrailing (rev cs @ [c]) = dropWhile isTrailing (rev cs) @ [c]"
        by (auto simp: dropWhile_append list_all_iff)
      then show ?thesis by simp
    qed
    finally show ?thesis .
  qed
qed

lemma cleanUrl_append:
  assumes "list_all isTrailing ps" and "body = [] \<or> \<not> isTrailing (last body)"
  shows "cleanUrl (body @ ps) = body"
proof -
  from assms(1) have "dropWhile isTrailing (rev ps @ rev body) = dropWhile isTrailing (rev body)"
    by (simp add: dropWhile_append list_all_iff)
  moreover from assms(2) have "dropWhile isTrailing (rev body) = rev body"
    by (cases body rule: rev_cases) auto
  ultimately show ?thesis by (simp add: cleanUrl_eq)
qed

lemma urlRegex_http:
  assumes "urlChar b"
  shows "matchAt urlRegex (js ''http://'' @ b # bs) = Some (8 + length (takeWhile urlChar bs))"
proof -
  have 1: "urlRegex Some (js ''http://'' @ b # bs) = Some (dropWhile urlChar bs)"
    using assms by (simp add: urlRegex_def rx_eval star_Some)
  have "length (takeWhile urlChar bs) + length (dropWhile urlChar bs) = length bs"
    by (metis length_append takeWhile_dropWhile_id)
  then show ?thesis using 1 by (simp add: matchAt_def js_def)
qed

lemma urlRegex_https:
  assumes "urlChar b"
  shows "matchAt urlRegex (js ''https://'' @ b # bs) = Some (9 + length (takeWhile urlChar bs))"
proof -
  have 1: "urlRegex Some (js ''https://'' @ b # bs) = Some (dropWhile urlChar bs)"
    using assms by (simp add: urlRegex_def rx_eval star_Some)
  have "length (takeWhile urlChar bs) + length (dropWhile urlChar bs) = length bs"
    by (metis length_append takeWhile_dropWhile_id)
  then show ?thesis using 1 by (simp add: matchAt_def js_def)
qed

lemma isTrailing_urlChar: "isTrailing c \<Longrightarrow> urlChar c"
  by (auto simp: isTrailing_def urlChar_def isSpace_def)

lemma linkify_match:
  assumes "matchAt urlRegex s = Some n"
  shows "linkify s = anchor (cleanUrl (take n s)) @ linkify (drop n s)"
  using replaceAll_match [OF neverEmpty_urlRegex assms] by (simp add: linkify_def)

lemma urlRegex_whole:
  assumes "scheme = js ''http://'' \<or> scheme = js ''https://''"
    and "list_all urlChar bs" and "bs \<noteq> []" and "rest = [] \<or> \<not> urlChar (hd rest)"
  shows "matchAt urlRegex (scheme @ bs @ rest) = Some (length (scheme @ bs))"
proof -
  from assms(3) obtain b bs' where bs: "bs = b # bs'" by (cases bs) auto
  with assms(2) have b: "urlChar b" and bs': "list_all urlChar bs'" by simp_all
  have "takeWhile urlChar (bs' @ rest) = bs'"
  proof (cases rest)
    case Nil
    with bs' show ?thesis by (simp add: list_all_iff)
  next
    case (Cons r rs)
    with assms(4) have "\<not> urlChar r" by simp
    with bs' Cons show ?thesis by (simp add: takeWhile_append list_all_iff takeWhile_tail)
  qed
  then have l: "length (takeWhile urlChar (bs' @ rest)) = length bs'" by simp
  from assms(1) show ?thesis
  proof
    assume "scheme = js ''http://''"
    with urlRegex_http [OF b, of "bs' @ rest"] l bs show ?thesis by (simp add: js_def)
  next
    assume "scheme = js ''https://''"
    with urlRegex_https [OF b, of "bs' @ rest"] l bs show ?thesis by (simp add: js_def)
  qed
qed

subsection \<open>Characters at which a pattern stops\<close>

lemma passes_Some: "passes c b Some Some"
  by (simp add: passes_def)

lemma passes_cls: "\<not> P c \<Longrightarrow> passes c b k k' \<Longrightarrow> passes c b (cls P k) (cls P k')"
  unfolding passes_def
proof
  fix x
  assume p: "\<not> P c" and k: "\<forall>x. k (x @ c # b) = map_option (\<lambda>rest. rest @ c # b) (k' x)"
  show "cls P k (x @ c # b) = map_option (\<lambda>rest. rest @ c # b) (cls P k' x)"
    using p k by (cases x) simp_all
qed

lemma passes_opt:
  "passes c b (r k) (r k') \<Longrightarrow> passes c b k k' \<Longrightarrow> passes c b (opt r k) (opt r k')"
  by (auto simp: passes_def opt_def split: option.splits)

lemmas passes_intros = passes_cls passes_opt passes_Some

lemma matchAt_stops:
  assumes "stopsAt c r"
  shows "matchAt r (a @ c # b) = matchAt r a"
proof (cases "r Some a")
  case None
  with assms show ?thesis by (simp add: stopsAt_def passes_def matchAt_def)
next
  case (Some rest)
  with assms have "r Some (a @ c # b) = Some (rest @ c # b)"
    by (simp add: stopsAt_def passes_def)
  with Some show ?thesis by (simp add: matchAt_def)
qed

lemma replaceAll_split:
  assumes p: "stopsAt c r" and n: "neverEmpty r"
  shows "replaceAll r f (a @ c # b) = replaceAll r f a @ c # replaceAll r f b"
proof (induction a rule: length_induct)
  case (1 a)
  have m: "matchAt r (a @ c # b) = matchAt r a" by (rule matchAt_stops [OF p])
  show ?case
  proof (cases "matchAt r a")
    case None
    show ?thesis
    proof (cases a)
      case Nil
      with None m show ?thesis by (simp add: replaceAll_skip replaceAll_Nil)
    next
      case (Cons x xs)
      with 1 have "replaceAll r f (xs @ c # b) = replaceAll r f xs @ c # replaceAll r f b"
        by simp
      with None m Cons show ?thesis by (simp add: replaceAll_skip)
    qed
  next
    case (Some k)
    from matchAt_positive [OF n Some] have k: "0 < k" "k \<le> length a" by simp_all
    then have "length (drop k a) < length a" by simp
    with 1 have ih: "replaceAll r f (drop k a @ c # b)
        = replaceAll r f (drop k a) @ c # replaceAll r f b" by blast
    from Some m have "matchAt r (a @ c # b) = Some k" by simp
    from replaceAll_match [OF n this, of f] replaceAll_match [OF n Some, of f] k ih
    show ?thesis by simp
  qed
qed

lemma stopsAt_phoneRegex: "\<not> isDigit c \<Longrightarrow> \<not> isSpace c \<Longrightarrow> stopsAt c phoneRegex"
  unfolding stopsAt_def
  by (simp add: phoneRegex_def digits34_def) (intro allI passes_intros; assumption)

lemma stopsAt_timeRegex: "\<not> isDigit c \<Longrightarrow> c \<noteq> 58 \<Longrightarrow> stopsAt c timeRegex"
  unfolding stopsAt_def
  by (simp add: timeRegex_def chr_def) (intro allI passes_intros; simp)

lemma stopsAt_cupRegex: "c \<noteq> 67 \<Longrightarrow> c \<noteq> 85 \<Longrightarrow> c \<noteq> 80 \<Longrightarrow> stopsAt c cupRegex"
  unfolding stopsAt_def
  by (simp add: cupRegex_def chr_def) (intro allI passes_intros; simp)

lemma stopsAt_prontoRegex: "c < 65 \<Longrightarrow> c \<noteq> 32 \<Longrightarrow> stopsAt c prontoRegex"
  unfolding stopsAt_def
  by (simp add: prontoRegex_def chr_i_def canonicalize_def) (intro allI passes_intros; simp)

subsection \<open>Markup that the later steps leave alone\<close>

lemma replaceAll_tagged:
  assumes "stopsAt 60 r" and "stopsAt 62 r" and "neverEmpty r"
  shows "replaceAll r f (x @ 60 # t1 @ 62 # g @ 60 # t2 @ 62 # y)
           = replaceAll r f x @ 60 # replaceAll r f t1 @ 62 # replaceAll r f g
               @ 60 # replaceAll r f t2 @ 62 # replaceAll r f y"
  by (simp add: replaceAll_split [OF assms(1,3)] replaceAll_split [OF assms(2,3)])

lemma anchor_tagged:
  \<open>anchor u = 60 # (js ''a href='' @ 34 # u @ 34
       # js '' target="_blank" class="text-blue-600 underline hover:text-blue-700"'')
     @ 62 # u @ 60 # js ''/a'' @ [62]\<close>
  by (simp add: anchor_def js_def)

lemma replaceAll_anchor:
  assumes lt: "stopsAt 60 r" and gt: "stopsAt 62 r" and qu: "stopsAt 34 r"
    and n: "neverEmpty r"
    and u: "replaceAll r f u = u"
    and a1: \<open>replaceAll r f (js ''a href='') = js ''a href=''\<close>
    and a2: \<open>replaceAll r f (js '' target="_blank" class="text-blue-600 underline hover:text-blue-700"'')
         = js '' target="_blank" class="text-blue-600 underline hover:text-blue-700"''\<close>
    and a3: \<open>replaceAll r f (js ''/a'') = js ''/a''\<close>
  shows "replaceAll r f (x @ anchor u @ y) = replaceAll r f x @ anchor u @ replaceAll r f y"
proof -
  let ?q = \<open>js '' target="_blank" class="text-blue-600 underline hover:text-blue-700"''\<close>
  let ?t1 = "js ''a href='' @ 34 # u @ 34 # ?q"
  have t1: "replaceAll r f ?t1 = ?t1"
    by (simp add: replaceAll_split [OF qu n] u a1 a2)
  have "replaceAll r f (x @ anchor u @ y)
          = replaceAll r f (x @ 60 # ?t1 @ 62 # u @ 60 # js ''/a'' @ 62 # y)"
    by (simp add: anchor_tagged)
  also have "\<dots> = replaceAll r f x @ 60 # replaceAll r f ?t1 @ 62 # replaceAll r f u
               @ 60 # replaceAll r f (js ''/a'') @ 62 # replaceAll r f y"
    by (rule replaceAll_tagged [OF lt gt n])
  also have "\<dots> = replaceAll r f x @ anchor u @ replaceAll r f y"
    unfolding t1 u a3 by (simp add: anchor_tagged)
  finally show ?thesis .
qed

lemma inert_suffix:
  assumes "inert u" and "suffix t u"
  shows "matchAt phoneRegex t = None" "matchAt timeRegex t = None"
    "matchAt prontoRegex t = None" "matchAt cupRegex t = None"
  using assms by (simp_all add: inert_def list_all_iff)

lemma highlightPhones_anchor:
  assumes "inert u"
  shows "highlightPhones (x @ anchor u @ y) = highlightPhones x @ anchor u @ highlightPhones y"
  unfolding highlightPhones_def
proof (rule replaceAll_anchor)
  show "replaceAll phoneRegex phoneSpan u = u"
    by (rule replaceAll_id) (rule inert_suffix [OF assms])
qed (simp_all add: stopsAt_phoneRegex neverEmpty_phoneRegex isDigit_def isSpace_def,
     simp_all add: phoneRegex_def digits34_def rx_eval)

lemma highlightTimes_anchor:
  assumes "inert u"
  shows "highlightTimes (x @ anchor u @ y) = highlightTimes x @ anchor u @ highlightTimes y"
  unfolding highlightTimes_def
proof (rule replaceAll_anchor)
  show "replaceAll timeRegex timeSpan u = u"
    by (rule replaceAll_id) (rule inert_suffix [OF assms])
qed (simp_all add: stopsAt_timeRegex neverEmpty_timeRegex isDigit_def,
     simp_all add: timeRegex_def rx_eval)

lemma annotatePronto_anchor:
  assumes "inert u"
  shows "annotatePronto (x @ anchor u @ y) = annotatePronto x @ anchor u @ annotatePronto y"
  unfolding annotatePronto_def
proof (rule replaceAll_anchor)
  show "replaceAll prontoRegex (\<lambda>m. prontoText) u = u"
    by (rule replaceAll_id) (rule inert_suffix [OF assms])
qed (simp_all add: stopsAt_prontoRegex neverEmpty_prontoRegex,
     simp_all add: prontoRegex_def rx_eval)

lemma annotateCup_anchor:
  assumes "inert u"
  shows "annotateCup (x @ anchor u @ y) = annotateCup x @ anchor u @ annotateCup y"
  unfolding annotateCup_def
proof (rule replaceAll_anchor)
  show "replaceAll cupRegex (\<lambda>m. cupText) u = u"
    by (rule replaceAll_id) (rule inert_suffix [OF assms])
qed (simp_all add: stopsAt_cupRegex neverEmpty_cupRegex,
     simp_all add: cupRegex_def rx_eval)

lemma later_steps_anchor:
  assumes "inert u"
  shows "annotateKeywords (highlightTimes (highlightPhones (x @ anchor u @ y)))
           = annotateKeywords (highlightTimes (highlightPhones x)) @ anchor u
               @ annotateKeywords (highlightTimes (highlightPhones y))"
  by (simp add: annotateKeywords_def highlightPhones_anchor [OF assms]
      highlightTimes_anchor [OF assms] annotatePronto_anchor [OF assms]
      annotateCup_anchor [OF assms])

lemma cls_Some_iff: "cls P k s = Some r \<longleftrightarrow> (\<exists>c cs. s = c # cs \<and> P c \<and> k cs = Some r)"
  by (cases s) auto

lemma urlRegex_prefix:
  assumes "matchAt urlRegex t = Some n"
  shows "\<exists>zs. t = 104 # 116 # 116 # 112 # zs"
proof -
  from assms obtain r where "urlRegex Some t = Some r"
    by (auto simp: matchAt_def split: option.splits)
  then show ?thesis
    by (auto simp: urlRegex_def chr_def cls_Some_iff)
qed

lemma linkify_prefix:
  assumes "\<not> sublist (js ''http'') pre" and "s = [] \<or> hd s = 104"
  shows "linkify (pre @ s) = pre @ linkify s"
  using assms(1)
proof (induction pre)
  case Nil
  show ?case by simp
next
  case (Cons c pre)
  from Cons.prems have np: "\<not> prefix (js ''http'') (c # pre)" and ns: "\<not> sublist (js ''http'') pre"
    by (simp_all add: sublist_Cons_right)
  have "matchAt urlRegex (c # pre @ s) = None"
  proof (rule ccontr)
    assume "matchAt urlRegex (c # pre @ s) \<noteq> None"
    then obtain n where "matchAt urlRegex (c # pre @ s) = Some n" by auto
    from urlRegex_prefix [OF this] obtain zs where z: "c # pre @ s = 104 # 116 # 116 # 112 # zs"
      by blast
    show False
    proof (cases pre)
      case Nil
      with z assms(2) show False by auto
    next
      case p1: (Cons a pre1)
      show False
      proof (cases pre1)
        case Nil
        with z p1 assms(2) show False by auto
      next
        case p2: (Cons b pre2)
        show False
        proof (cases pre2)
          case Nil
          with z p1 p2 assms(2) show False by auto
        next
          case p3: (Cons d pre3)
          with z p1 p2 have "c # pre = js ''http'' @ pre3" by (simp add: js_def)
          with np show False by simp
        qed
      qed
    qed
  qed
  with Cons.IH [OF ns] show ?case by (simp add: linkify_def replaceAll_skip)
qed

lemma linkify_url:
  assumes "scheme = js ''http://'' \<or> scheme = js ''https://''"
    and "list_all urlChar body" and "list_all isTrailing ps" and "body @ ps \<noteq> []"
    and "body = [] \<or> \<not> isTrailing (last body)"
    and "rest = [] \<or> \<not> urlChar (hd rest)"
    and "\<not> sublist (js ''http'') pre"
  shows "linkify (pre @ scheme @ body @ ps @ rest) = pre @ anchor (scheme @ body) @ linkify rest"
proof -
  from assms(2,3) have all: "list_all urlChar (body @ ps)"
    by (auto simp: list_all_iff isTrailing_urlChar)
  from urlRegex_whole [OF assms(1) all assms(4,6)]
  have m: "matchAt urlRegex (scheme @ body @ ps @ rest) = Some (length (scheme @ body @ ps))"
    by simp
  have "scheme @ body = [] \<or> \<not> isTrailing (last (scheme @ body))"
  proof (cases "body = []")
    case True
    with assms(1) show ?thesis by (auto simp: js_def isTrailing_def)
  next
    case False
    with assms(5) show ?thesis by simp
  qed
  from cleanUrl_append [OF assms(3) this]
  have c: "cleanUrl (scheme @ body @ ps) = scheme @ body" by simp
  have "take (length (scheme @ body @ ps)) (scheme @ body @ ps @ rest) = scheme @ body @ ps"
    "drop (length (scheme @ body @ ps)) (scheme @ body @ ps @ rest) = rest"
    by simp_all
  with linkify_match [OF m] c
  have l: "linkify (scheme @ body @ ps @ rest) = anchor (scheme @ body) @ linkify rest"
    by (simp del: length_append)
  from assms(1) have "scheme @ body @ ps @ rest = [] \<or> hd (scheme @ body @ ps @ rest) = 104"
    by (auto simp: js_def)
  from linkify_prefix [OF assms(7) this] l show ?thesis by simp
qed

lemma linkify_no_url:
  assumes "\<not> sublist (js ''http'') pre"
  shows "linkify pre = pre"
proof -
  have "linkify [] = []" by (simp add: linkify_def urlRegex_def rx_eval)
  with linkify_prefix [OF assms, of "[]"] show ?thesis by simp
qed

lemma phoneSpan_tagged:
  \<open>x @ phoneSpan g @ y
     = x @ 60 # js ''span class="font-semibold text-blue-600"'' @ 62 # g @ 60 # js ''/span'' @ 62 # y\<close>
  by (simp add: phoneSpan_def js_def)

lemma timeSpan_tagged:
  \<open>x @ timeSpan g @ y
     = x @ 60 # js ''span class="font-semibold"'' @ 62 # g @ 60 # js ''/span'' @ 62 # y\<close>
  by (simp add: timeSpan_def js_def)

lemma prontoRegex_head: "canonicalize c \<noteq> 80 \<Longrightarrow> matchAt prontoRegex (c # cs) = None"
  by (simp add: prontoRegex_def chr_i_def matchAt_def canonicalize_def)

lemma prontoRegex_Nil: "matchAt prontoRegex [] = None"
  by (simp add: prontoRegex_def chr_i_def matchAt_def)

lemma cupRegex_head: "c \<noteq> 67 \<Longrightarrow> matchAt cupRegex (c # cs) = None"
  by (simp add: cupRegex_def chr_def matchAt_def)

lemma cupRegex_Nil: "matchAt cupRegex [] = None"
  by (simp add: cupRegex_def chr_def matchAt_def)

lemma digits_no_keyword:
  assumes "list_all (\<lambda>c. isDigit c \<or> isSpace c \<or> c = 58) g"
  shows "replaceAll prontoRegex f g = g" and "replaceAll cupRegex f' g = g"
proof -
  have h: "canonicalize c \<noteq> 80 \<and> c \<noteq> 67" if "c \<in> set g" for c
    using assms that by (auto simp: list_all_iff isDigit_def isSpace_def canonicalize_def)
  have "matchAt prontoRegex t = None \<and> matchAt cupRegex t = None" if "suffix t g" for t
  proof (cases t)
    case Nil
    then show ?thesis by (simp add: prontoRegex_Nil cupRegex_Nil)
  next
    case (Cons c cs)
    with that have "c \<in> set g" by (auto simp: suffix_def)
    from h [OF this] Cons show ?thesis by (simp add: prontoRegex_head cupRegex_head)
  qed
  then show "replaceAll prontoRegex f g = g" and "replaceAll cupRegex f' g = g"
    by (simp_all add: replaceAll_id)
qed

lemma annotateKeywords_spans:
  assumes "list_all (\<lambda>c. isDigit c \<or> isSpace c \<or> c = 58) g"
  shows "annotateKeywords (x @ phoneSpan g @ y)
           = annotateKeywords x @ phoneSpan g @ annotateKeywords y"
    and "annotateKeywords (x @ timeSpan g @ y)
           = annotateKeywords x @ timeSpan g @ annotateKeywords y"
proof -
  note g = digits_no_keyword [OF assms]
  have p: "stopsAt 60 prontoRegex" "stopsAt 62 prontoRegex" "neverEmpty prontoRegex"
    by (simp_all add: stopsAt_prontoRegex neverEmpty_prontoRegex)
  have c: "stopsAt 60 cupRegex" "stopsAt 62 cupRegex" "neverEmpty cupRegex"
    by (simp_all add: stopsAt_cupRegex neverEmpty_cupRegex)
  have e: \<open>replaceAll prontoRegex f (js ''span class="font-semibold text-blue-600"'')
         = js ''span class="font-semibold text-blue-600"''\<close>
      \<open>replaceAll prontoRegex f (js ''span class="font-semibold"'')
         = js ''span class="font-semibold"''\<close>
      \<open>replaceAll prontoRegex f (js ''/span'') = js ''/span''\<close> for f
    by (simp_all add: prontoRegex_def rx_eval)
  have e': \<open>replaceAll cupRegex f (js ''span class="font-semibold text-blue-600"'')
         = js ''span class="font-semibold text-blue-600"''\<close>
      \<open>replaceAll cupRegex f (js ''span class="font-semibold"'')
         = js ''span class="font-semibold"''\<close>
      \<open>replaceAll cupRegex f (js ''/span'') = js ''/span''\<close> for f
    by (simp_all add: cupRegex_def rx_eval)
  have 1: "annotatePronto (x @ phoneSpan g @ y) = annotatePronto x @ phoneSpan g @ annotatePronto y"
    for x y
    unfolding annotatePronto_def phoneSpan_tagged replaceAll_tagged [OF p] e g ..
  have 2: "annotateCup (x @ phoneSpan g @ y) = annotateCup x @ phoneSpan g @ annotateCup y"
    for x y
    unfolding annotateCup_def phoneSpan_tagged replaceAll_tagged [OF c] e' g ..
  have 3: "annotatePronto (x @ timeSpan g @ y) = annotatePronto x @ timeSpan g @ annotatePronto y"
    for x y
    unfolding annotatePronto_def timeSpan_tagged replaceAll_tagged [OF p] e g ..
  have 4: "annotateCup (x @ timeSpan g @ y) = annotateCup x @ timeSpan g @ annotateCup y"
    for x y
    unfolding annotateCup_def timeSpan_tagged replaceAll_tagged [OF c] e' g ..
  show "annotateKeywords (x @ phoneSpan g @ y)
           = annotateKeywords x @ phoneSpan g @ annotateKeywords y"
    by (simp add: annotateKeywords_def 1 2)
  show "annotateKeywords (x @ timeSpan g @ y)
           = annotateKeywords x @ timeSpan g @ annotateKeywords y"
    by (simp add: annotateKeywords_def 3 4)
qed

subsection \<open>The patterns with their characters evaluated\<close>

lemma canonicalize_letter:
  "65 \<le> n \<Longrightarrow> n \<le> 90 \<Longrightarrow> (canonicalize c = n) = (c = n \<or> c = n + 32)"
  by (auto simp: canonicalize_def)

lemma canonicalize_space: "(canonicalize c = 32) = (c = 32)"
  by (auto simp: canonicalize_def)

lemma urlRegex_run:
  "urlRegex k = cls (\<lambda>c. c = 104) (cls (\<lambda>c. c = 116) (cls (\<lambda>c. c = 116) (cls (\<lambda>c. c = 112)
     (opt (cls (\<lambda>c. c = 115)) (cls (\<lambda>c. c = 58) (cls (\<lambda>c. c = 47) (cls (\<lambda>c. c = 47)
       (plus urlChar k))))))))"
  by (simp add: urlRegex_def chr_def)

lemma timeRegex_run:
  "timeRegex k = cls isDigit (opt (cls isDigit) (cls (\<lambda>c. c = 58) (cls isDigit (cls isDigit k))))"
  by (simp add: timeRegex_def chr_def)

lemma phoneRegex_run:
  "phoneRegex k = digits34 (opt (cls isSpace) (digits34 (opt (cls isSpace) (digits34 k))))"
  by (simp add: phoneRegex_def)

lemma digits34_run:
  "digits34 k = cls isDigit (cls isDigit (cls isDigit (opt (cls isDigit) k)))"
  by (simp add: digits34_def)

lemma cupRegex_run:
  "cupRegex k = cls (\<lambda>c. c = 67) (cls (\<lambda>c. c = 85) (cls (\<lambda>c. c = 80) k))"
  by (simp add: cupRegex_def chr_def)

lemma prontoRegex_run:
  "prontoRegex k =
     cls (\<lambda>c. c = 80 \<or> c = 112) (cls (\<lambda>c. c = 82 \<or> c = 114) (cls (\<lambda>c. c = 79 \<or> c = 111)
    (cls (\<lambda>c. c = 78 \<or> c = 110) (cls (\<lambda>c. c = 84 \<or> c = 116) (cls (\<lambda>c. c = 79 \<or> c = 111)
    (cls (\<lambda>c. c = 32)
    (cls (\<lambda>c. c = 83 \<or> c = 115) (cls (\<lambda>c. c = 79 \<or> c = 111) (cls (\<lambda>c. c = 67 \<or> c = 99)
    (cls (\<lambda>c. c = 67 \<or> c = 99) (cls (\<lambda>c. c = 79 \<or> c = 111) (cls (\<lambda>c. c = 82 \<or> c = 114)
    (cls (\<lambda>c. c = 83 \<or> c = 115) (cls (\<lambda>c. c = 79 \<or> c = 111) k))))))))))))))"
proof -
  have c: "canonicalize 112 = 80" "canonicalize 114 = 82" "canonicalize 111 = 79"
    "canonicalize 110 = 78" "canonicalize 116 = 84" "canonicalize 32 = 32"
    "canonicalize 115 = 83" "canonicalize 99 = 67"
    by (simp_all add: canonicalize_def)
  show ?thesis
    by (simp add: prontoRegex_def chr_i_def c canonicalize_letter canonicalize_space)
qed

lemmas rx_run = urlRegex_run timeRegex_run phoneRegex_run digits34_run cupRegex_run
  prontoRegex_run opt_def plus_def eos_def matchAt_def isDigit_def isSpace_def urlChar_def
  isTrailing_def js_def replaceAll_Nil replaceAll_skip replaceAll_hit

subsection \<open>When a replacement changes the text\<close>

lemma replaceAll_length:
  assumes n: "neverEmpty r" and g: "\<And>t n. matchAt r t = Some n \<Longrightarrow> n < length (f (take n t))"
  shows "length s \<le> length (replaceAll r f s)"
proof (induction s rule: length_induct)
  case (1 s)
  show ?case
  proof (cases "matchAt r s")
    case None
    show ?thesis
    proof (cases s)
      case Nil
      then show ?thesis by simp
    next
      case (Cons c cs)
      with 1 have "length cs \<le> length (replaceAll r f cs)" by simp
      with None Cons show ?thesis by (simp add: replaceAll_skip)
    qed
  next
    case (Some k)
    from matchAt_positive [OF n Some] have k: "0 < k" "k \<le> length s" by simp_all
    then have "length (drop k s) < length s" by simp
    with 1 have "length (drop k s) \<le> length (replaceAll r f (drop k s))" by blast
    with g [OF Some] k replaceAll_match [OF n Some, of f] show ?thesis by simp
  qed
qed

lemma replaceAll_grows:
  assumes n: "neverEmpty r" and g: "\<And>t n. matchAt r t = Some n \<Longrightarrow> n < length (f (take n t))"
    and "suffix t s" and "matchAt r t = Some m"
  shows "length s < length (replaceAll r f s)"
  using assms(3)
proof (induction s)
  case Nil
  then have "t = []" by simp
  with assms(4) have "matchAt r [] = Some m" by simp
  from matchAt_positive [OF n this] have False by auto
  then show ?case ..
next
  case (Cons c cs)
  show ?case
  proof (cases "matchAt r (c # cs)")
    case (Some k)
    from matchAt_positive [OF n Some] have k: "0 < k" "k \<le> length (c # cs)" by simp_all
    have "length (drop k (c # cs)) \<le> length (replaceAll r f (drop k (c # cs)))"
      by (rule replaceAll_length [OF n g])
    with g [OF Some] k replaceAll_match [OF n Some, of f] show ?thesis
      by (simp del: drop_Suc_Cons take_Suc_Cons)
  next
    case None
    with assms(4) have "t \<noteq> c # cs" by auto
    with Cons.prems have "suffix t cs" by (simp add: suffix_Cons)
    from Cons.IH [OF this] None show ?thesis by (simp add: replaceAll_skip)
  qed
qed

lemma replaceAll_fixed_iff:
  assumes n: "neverEmpty r" and g: "\<And>t n. matchAt r t = Some n \<Longrightarrow> n < length (f (take n t))"
  shows "replaceAll r f s = s \<longleftrightarrow> (\<forall>t. suffix t s \<longrightarrow> matchAt r t = None)"
proof
  assume "\<forall>t. suffix t s \<longrightarrow> matchAt r t = None"
  then show "replaceAll r f s = s" by (intro replaceAll_id) simp
next
  assume e: "replaceAll r f s = s"
  show "\<forall>t. suffix t s \<longrightarrow> matchAt r t = None"
  proof (intro allI impI, rule ccontr)
    fix t
    assume "suffix t s" and "matchAt r t \<noteq> None"
    then obtain m where "matchAt r t = Some m" by auto
    from replaceAll_grows [OF n g \<open>suffix t s\<close> this] e show False by simp
  qed
qed

subsection \<open>The keywords\<close>

lemma lit_i_eq:
  "lit_i p k s = (if length p \<le> length s
        \<and> map canonicalize (take (length p) s) = map canonicalize (js p)
      then k (drop (length p) s) else None)"
proof (induction p arbitrary: s)
  case Nil
  show ?case by (simp add: js_def)
next
  case (Cons a p)
  show ?case
  proof (cases s)
    case Nil
    then show ?thesis by (simp add: chr_i_def)
  next
    case (Cons c cs)
    with Cons.IH [of cs] show ?thesis by (auto simp: chr_i_def js_def)
  qed
qed

lemma lit_eq:
  "lit p k s = (if prefix (js p) s then k (drop (length p) s) else None)"
proof (induction p arbitrary: s)
  case Nil
  show ?case by (simp add: js_def)
next
  case (Cons a p)
  show ?case
  proof (cases s)
    case Nil
    then show ?thesis by (simp add: chr_def js_def)
  next
    case (Cons c cs)
    with Cons.IH [of cs] show ?thesis by (auto simp: chr_def js_def)
  qed
qed

lemma canonicalize_pronto: "map canonicalize (js ''pronto soccorso'') = js ''PRONTO SOCCORSO''"
  by (simp add: js_def canonicalize_def)

lemma matchAt_prontoRegex:
  "matchAt prontoRegex s = (if 15 \<le> length s
        \<and> map canonicalize (take 15 s) = js ''PRONTO SOCCORSO'' then Some 15 else None)"
proof -
  have l: "length ''pronto soccorso'' = 15" by simp
  show ?thesis
    unfolding matchAt_def prontoRegex_def lit_i_eq canonicalize_pronto l by auto
qed

lemma length_pronto:
  assumes "map canonicalize k = js ''PRONTO SOCCORSO''"
  shows "length k = 15"
proof -
  from assms have "length (map canonicalize k) = length (js ''PRONTO SOCCORSO'')" by simp
  then show ?thesis by (simp add: js_def)
qed

lemma matchAt_cupRegex:
  "matchAt cupRegex s = (if prefix (js ''CUP'') s then Some 3 else None)"
proof -
  have l: "length ''CUP'' = 3" by simp
  have "3 \<le> length s" if "prefix (js ''CUP'') s"
    using prefix_length_le [OF that] by (simp add: js_def)
  then show ?thesis
    unfolding matchAt_def cupRegex_def lit_eq l by auto
qed

lemma annotatePronto_hit:
  assumes "map canonicalize k = js ''PRONTO SOCCORSO''"
  shows "annotatePronto (k @ rest) = prontoText @ annotatePronto rest"
proof -
  from assms have l: "length k = 15" by (rule length_pronto)
  with assms have "matchAt prontoRegex (k @ rest) = Some 15"
    by (simp add: matchAt_prontoRegex)
  from replaceAll_match [OF neverEmpty_prontoRegex this] l show ?thesis
    by (simp add: annotatePronto_def)
qed

lemma annotateCup_hit: "annotateCup (js ''CUP'' @ rest) = cupText @ annotateCup rest"
proof -
  have l: "length (js ''CUP'') = 3" by (simp add: js_def)
  have "matchAt cupRegex (js ''CUP'' @ rest) = Some 3" by (simp add: matchAt_cupRegex)
  from replaceAll_match [OF neverEmpty_cupRegex this] l show ?thesis
    by (simp add: annotateCup_def)
qed

lemma sublist_iff_suffix_prefix: "sublist k text \<longleftrightarrow> (\<exists>t. suffix t text \<and> prefix k t)"
proof
  assume "sublist k text"
  then obtain ps ss where "text = ps @ k @ ss" by (auto simp: sublist_def)
  then have "suffix (k @ ss) text \<and> prefix k (k @ ss)" by (simp add: suffix_def)
  then show "\<exists>t. suffix t text \<and> prefix k t" by blast
next
  assume "\<exists>t. suffix t text \<and> prefix k t"
  then obtain t ps ss where "text = ps @ t" "t = k @ ss" by (auto simp: suffix_def prefix_def)
  then have "text = ps @ k @ ss" by simp
  then show "sublist k text" unfolding sublist_def by blast
qed

lemma cupRegex_longer: "matchAt cupRegex t = Some n \<Longrightarrow> n < length cupText"
  unfolding matchAt_cupRegex cupText_def js_def
  by (cases "prefix (map of_char ''CUP'') t") simp_all

lemma annotateCup_fixed: "annotateCup text = text \<longleftrightarrow> \<not> sublist (js ''CUP'') text"
proof -
  have "annotateCup text = text \<longleftrightarrow> (\<forall>t. suffix t text \<longrightarrow> matchAt cupRegex t = None)"
    unfolding annotateCup_def
    by (rule replaceAll_fixed_iff [OF neverEmpty_cupRegex]) (rule cupRegex_longer)
  also have "\<dots> \<longleftrightarrow> \<not> (\<exists>t. suffix t text \<and> prefix (js ''CUP'') t)"
    by (simp add: matchAt_cupRegex) blast
  finally show ?thesis by (simp add: sublist_iff_suffix_prefix)
qed

lemma prontoRegex_sublist:
  "(\<exists>t. suffix t text \<and> matchAt prontoRegex t \<noteq> None)
     \<longleftrightarrow> (\<exists>k. sublist k text \<and> map canonicalize k = js ''PRONTO SOCCORSO'')"
proof
  assume "\<exists>t. suffix t text \<and> matchAt prontoRegex t \<noteq> None"
  then obtain t where t: "suffix t text" "matchAt prontoRegex t \<noteq> None" by blast
  have m: "map canonicalize (take 15 t) = js ''PRONTO SOCCORSO''"
  proof (rule ccontr)
    assume "map canonicalize (take 15 t) \<noteq> js ''PRONTO SOCCORSO''"
    then have "matchAt prontoRegex t = None" unfolding matchAt_prontoRegex by simp
    with t(2) show False by simp
  qed
  from t(1) obtain ps where "text = ps @ t" unfolding suffix_def by blast
  then have "text = ps @ take 15 t @ drop 15 t" by simp
  then have "sublist (take 15 t) text" unfolding sublist_def by blast
  with m show "\<exists>k. sublist k text \<and> map canonicalize k = js ''PRONTO SOCCORSO''" by blast
next
  assume "\<exists>k. sublist k text \<and> map canonicalize k = js ''PRONTO SOCCORSO''"
  then obtain k where k: "sublist k text" "map canonicalize k = js ''PRONTO SOCCORSO''" by blast
  from k(1) obtain ps ss where t: "text = ps @ k @ ss" unfolding sublist_def by blast
  from k(2) have l: "length k = 15" by (rule length_pronto)
  then have "take 15 (k @ ss) = k" by simp
  with k(2) l have "matchAt prontoRegex (k @ ss) = Some 15" unfolding matchAt_prontoRegex by simp
  moreover from t have "suffix (k @ ss) text" unfolding suffix_def by blast
  ultimately show "\<exists>t. suffix t text \<and> matchAt prontoRegex t \<noteq> None" by force
qed

lemma prontoRegex_15: "matchAt prontoRegex t = Some n \<Longrightarrow> n = 15"
  unfolding matchAt_prontoRegex by (cases "15 \<le> length t
        \<and> map canonicalize (take 15 t) = js ''PRONTO SOCCORSO''") simp_all

lemma length_prontoText: "length prontoText = 18"
  by (simp add: prontoText_def js_def)

lemma prontoRegex_longer: "matchAt prontoRegex t = Some n \<Longrightarrow> n < length prontoText"
  by (drule prontoRegex_15) (simp add: length_prontoText)

lemma annotatePronto_fixed:
  "annotatePronto text = text
     \<longleftrightarrow> \<not> (\<exists>k. sublist k text \<and> map canonicalize k = js ''PRONTO SOCCORSO'')"
proof -
  have "annotatePronto text = text \<longleftrightarrow> (\<forall>t. suffix t text \<longrightarrow> matchAt prontoRegex t = None)"
    unfolding annotatePronto_def
    by (rule replaceAll_fixed_iff [OF neverEmpty_prontoRegex]) (rule prontoRegex_longer)
  also have "\<dots> \<longleftrightarrow> \<not> (\<exists>t. suffix t text \<and> matchAt prontoRegex t \<noteq> None)" by simp
  also note prontoRegex_sublist
  finally show ?thesis .
qed


subsection \<open>The phone pattern\<close>

lemma opt_Some_iff:
  "opt r k s = Some x \<longleftrightarrow> (r k s = Some x \<or> (r k s = None \<and> k s = Some x))"
  by (simp add: opt_def split: option.splits)

lemma digits34_Some:
  assumes "digits34 k s = Some r"
  shows "\<exists>d s'. s = d @ s' \<and> digitGroup d \<and> k s' = Some r"
proof -
  from assms obtain a b c s1 where s: "s = a # b # c # s1" "isDigit a" "isDigit b" "isDigit c"
    and o: "opt (cls isDigit) k s1 = Some r"
    by (auto simp: digits34_def cls_Some_iff)
  from o have "cls isDigit k s1 = Some r \<or> k s1 = Some r" by (auto simp: opt_Some_iff)
  then show ?thesis
  proof
    assume "cls isDigit k s1 = Some r"
    then obtain e s2 where e: "s1 = e # s2" "isDigit e" "k s2 = Some r"
      by (auto simp: cls_Some_iff)
    with s have "s = [a, b, c, e] @ s2 \<and> digitGroup [a, b, c, e] \<and> k s2 = Some r"
      by (simp add: digitGroup_def)
    then show ?thesis by blast
  next
    assume "k s1 = Some r"
    with s have "s = [a, b, c] @ s1 \<and> digitGroup [a, b, c] \<and> k s1 = Some r"
      by (simp add: digitGroup_def)
    then show ?thesis by blast
  qed
qed

lemma separator_Some:
  assumes "opt (cls isSpace) k s = Some r"
  shows "\<exists>w s'. s = w @ s' \<and> separator w \<and> k s' = Some r"
proof -
  from assms have "cls isSpace k s = Some r \<or> k s = Some r" by (auto simp: opt_Some_iff)
  then show ?thesis
  proof
    assume "cls isSpace k s = Some r"
    then obtain e s2 where "s = e # s2" "isSpace e" "k s2 = Some r"
      by (auto simp: cls_Some_iff)
    then have "s = [e] @ s2 \<and> separator [e] \<and> k s2 = Some r" by (simp add: separator_def)
    then show ?thesis by blast
  next
    assume "k s = Some r"
    then have "s = [] @ s \<and> separator [] \<and> k s = Some r" by (simp add: separator_def)
    then show ?thesis by blast
  qed
qed

lemma phoneRegex_Some:
  assumes "phoneRegex Some s = Some r"
  shows "\<exists>g. s = g @ r \<and> phoneShaped g"
proof -
  from assms have "digits34 (opt (cls isSpace) (digits34 (opt (cls isSpace) (digits34 Some)))) s
      = Some r" by (simp add: phoneRegex_def)
  from digits34_Some [OF this] obtain d1 s1 where 1: "s = d1 @ s1" "digitGroup d1"
    "opt (cls isSpace) (digits34 (opt (cls isSpace) (digits34 Some))) s1 = Some r" by blast
  from separator_Some [OF 1(3)] obtain w1 s2 where 2: "s1 = w1 @ s2" "separator w1"
    "digits34 (opt (cls isSpace) (digits34 Some)) s2 = Some r" by blast
  from digits34_Some [OF 2(3)] obtain d2 s3 where 3: "s2 = d2 @ s3" "digitGroup d2"
    "opt (cls isSpace) (digits34 Some) s3 = Some r" by blast
  from separator_Some [OF 3(3)] obtain w2 s4 where 4: "s3 = w2 @ s4" "separator w2"
    "digits34 Some s4 = Some r" by blast
  from digits34_Some [OF 4(3)] obtain d3 s5 where 5: "s4 = d3 @ s5" "digitGroup d3"
    "Some s5 = Some r" by blast
  from 1 2 3 4 5 have "s = (d1 @ w1 @ d2 @ w2 @ d3) @ r" by simp
  moreover from 1 2 3 4 5 have "phoneShaped (d1 @ w1 @ d2 @ w2 @ d3)"
    unfolding phoneShaped_def by blast
  ultimately show ?thesis by blast
qed

lemma digits34_complete:
  assumes "digitGroup d" and "k s \<noteq> None"
  shows "digits34 k (d @ s) \<noteq> None"
proof -
  from assms(1) have a: "list_all isDigit d" by (simp add: digitGroup_def)
  from assms(1) consider "length d = 3" | "length d = 4" by (auto simp: digitGroup_def)
  then show ?thesis
  proof cases
    case 1
    then obtain a b c where "d = [a, b, c]"
      by (auto simp: length_Suc_conv numeral_3_eq_3)
    with a assms(2) show ?thesis by (auto simp: digits34_def opt_def split: option.splits)
  next
    case 2
    then obtain a b c e where "d = [a, b, c, e]"
      by (auto simp: length_Suc_conv numeral_eq_Suc)
    with a assms(2) show ?thesis by (auto simp: digits34_def opt_def split: option.splits)
  qed
qed

lemma separator_complete:
  assumes "separator w" and "k s \<noteq> None"
  shows "opt (cls isSpace) k (w @ s) \<noteq> None"
proof (cases "w = []")
  case True
  with assms(2) show ?thesis by (auto simp: opt_def split: option.splits)
next
  case False
  with assms(1) obtain e where "w = [e]" "isSpace e"
    by (auto simp: separator_def length_Suc_conv)
  with assms(2) show ?thesis by (auto simp: opt_def split: option.splits)
qed

lemma phoneRegex_complete:
  assumes "phoneShaped g"
  shows "phoneRegex Some (g @ rest) \<noteq> None"
proof -
  from assms obtain d1 w1 d2 w2 d3 where g: "g = d1 @ w1 @ d2 @ w2 @ d3"
    and s: "digitGroup d1" "separator w1" "digitGroup d2" "separator w2" "digitGroup d3"
    unfolding phoneShaped_def by blast
  have 5: "digits34 Some (d3 @ rest) \<noteq> None"
    by (rule digits34_complete [where k = Some, OF s(5)]) simp
  have 4: "opt (cls isSpace) (digits34 Some) (w2 @ d3 @ rest) \<noteq> None"
    by (rule separator_complete [where k = "digits34 Some", OF s(4) 5])
  have 3: "digits34 (opt (cls isSpace) (digits34 Some)) (d2 @ w2 @ d3 @ rest) \<noteq> None"
    by (rule digits34_complete [where k = "opt (cls isSpace) (digits34 Some)", OF s(3) 4])
  have 2: "opt (cls isSpace) (digits34 (opt (cls isSpace) (digits34 Some)))
          (w1 @ d2 @ w2 @ d3 @ rest) \<noteq> None"
    by (rule separator_complete
        [where k = "digits34 (opt (cls isSpace) (digits34 Some))", OF s(2) 3])
  have "digits34 (opt (cls isSpace) (digits34 (opt (cls isSpace) (digits34 Some))))
          (d1 @ w1 @ d2 @ w2 @ d3 @ rest) \<noteq> None"
    by (rule digits34_complete
        [where k = "opt (cls isSpace) (digits34 (opt (cls isSpace) (digits34 Some)))",
          OF s(1) 2])
  with g show ?thesis by (simp add: phoneRegex_def)
qed

lemma matchAt_phoneShaped:
  assumes "matchAt phoneRegex s = Some n"
  shows "phoneShaped (take n s)"
proof -
  from assms obtain r where r: "phoneRegex Some s = Some r" "n = length s - length r"
    by (auto simp: matchAt_def split: option.splits)
  from phoneRegex_Some [OF r(1)] obtain g where "s = g @ r" "phoneShaped g" by blast
  with r(2) show ?thesis by simp
qed

lemma phoneSpan_longer: "matchAt phoneRegex t = Some n \<Longrightarrow> n < length (phoneSpan (take n t))"
  by (drule matchAt_positive [OF neverEmpty_phoneRegex]) (simp add: phoneSpan_def js_def)

lemma phoneRegex_sublist:
  "(\<exists>t. suffix t text \<and> matchAt phoneRegex t \<noteq> None) \<longleftrightarrow> (\<exists>g. sublist g text \<and> phoneShaped g)"
proof
  assume "\<exists>t. suffix t text \<and> matchAt phoneRegex t \<noteq> None"
  then obtain t n where t: "suffix t text" "matchAt phoneRegex t = Some n" by auto
  from t(1) obtain ps where "text = ps @ t" unfolding suffix_def by blast
  then have "text = ps @ take n t @ drop n t" by simp
  then have "sublist (take n t) text" unfolding sublist_def by blast
  with matchAt_phoneShaped [OF t(2)] show "\<exists>g. sublist g text \<and> phoneShaped g" by blast
next
  assume "\<exists>g. sublist g text \<and> phoneShaped g"
  then obtain g where g: "sublist g text" "phoneShaped g" by blast
  from g(1) obtain ps ss where t: "text = ps @ g @ ss" unfolding sublist_def by blast
  from phoneRegex_complete [OF g(2), of ss] have "matchAt phoneRegex (g @ ss) \<noteq> None"
    by (auto simp: matchAt_def)
  moreover from t have "suffix (g @ ss) text" unfolding suffix_def by blast
  ultimately show "\<exists>t. suffix t text \<and> matchAt phoneRegex t \<noteq> None" by blast
qed

lemma highlightPhones_fixed:
  "highlightPhones text = text \<longleftrightarrow> \<not> (\<exists>g. sublist g text \<and> phoneShaped g)"
proof -
  have "highlightPhones text = text \<longleftrightarrow> (\<forall>t. suffix t text \<longrightarrow> matchAt phoneRegex t = None)"
    unfolding highlightPhones_def
    by (rule replaceAll_fixed_iff [OF neverEmpty_phoneRegex]) (rule phoneSpan_longer)
  also have "\<dots> \<longleftrightarrow> \<not> (\<exists>t. suffix t text \<and> matchAt phoneRegex t \<noteq> None)" by simp
  also note phoneRegex_sublist
  finally show ?thesis .
qed

text \<open>
  C8. For the input of the example, \<^verbatim>\<open>linkify\<close> gives the text with the URL wrapped in an
  anchor whose target and visible text are the URL without the comma. In general a
  match of the URL pattern is replaced by the anchor of the cleaned URL, as target and as
  visible text, and the cleaned URL is the match without its trailing run of the
  characters \<^verbatim>\<open>. , ! ? )\<close>: it ends in none of them.
\<close>

theorem linkify_strips_trailing:
  \<open>linkify (js ''Visita http://example.com/a,'')
     = js ''Visita <a href="http://example.com/a" target="_blank" class="text-blue-600 underline hover:text-blue-700">http://example.com/a</a>''
   \<and> (matchAt urlRegex s = Some n \<longrightarrow>
        linkify s = js ''<a href="'' @ cleanUrl (take n s)
          @ js ''" target="_blank" class="text-blue-600 underline hover:text-blue-700">''
          @ cleanUrl (take n s) @ js ''</a>'' @ linkify (drop n s))
   \<and> (\<exists>ps. url = cleanUrl url @ ps \<and> list_all isTrailing ps)
   \<and> (cleanUrl url = [] \<or> \<not> isTrailing (last (cleanUrl url)))\<close>
proof (intro conjI impI)
  show \<open>linkify (js ''Visita http://example.com/a,'')
     = js ''Visita <a href="http://example.com/a" target="_blank" class="text-blue-600 underline hover:text-blue-700">http://example.com/a</a>''\<close>
    by (simp add: linkify_def urlRegex_def cleanUrl_def trailingRegex_def anchor_def rx_eval)
next
  assume "matchAt urlRegex s = Some n"
  from linkify_match [OF this]
  show \<open>linkify s = js ''<a href="'' @ cleanUrl (take n s)
          @ js ''" target="_blank" class="text-blue-600 underline hover:text-blue-700">''
          @ cleanUrl (take n s) @ js ''</a>'' @ linkify (drop n s)\<close>
    by (simp add: anchor_def)
next
  have "url = cleanUrl url @ rev (takeWhile isTrailing (rev url))"
    by (simp add: cleanUrl_eq flip: rev_append)
  moreover have "list_all isTrailing (rev (takeWhile isTrailing (rev url)))"
    by (auto simp: list_all_iff dest: set_takeWhileD)
  ultimately show "\<exists>ps. url = cleanUrl url @ ps \<and> list_all isTrailing ps" by blast
next
  show "cleanUrl url = [] \<or> \<not> isTrailing (last (cleanUrl url))"
  proof (cases "dropWhile isTrailing (rev url) = []")
    case True
    then show ?thesis by (simp add: cleanUrl_eq)
  next
    case False
    then have "\<not> isTrailing (hd (dropWhile isTrailing (rev url)))" by (rule hd_dropWhile)
    with False show ?thesis by (simp add: cleanUrl_eq last_rev)
  qed
qed

theorem linkify_strips_trailing_witness:
  \<open>matchAt urlRegex (js ''http://example.com/a,'') = Some 21
   \<and> linkify (js ''http://example.com/a,'')
       = js ''<a href="http://example.com/a" target="_blank" class="text-blue-600 underline hover:text-blue-700">http://example.com/a</a>''\<close>
proof -
  have m: "matchAt urlRegex (js ''http://example.com/a,'') = Some 21"
    by (simp add: urlRegex_def rx_eval)
  have c: "cleanUrl (js ''http://example.com/a,'') = js ''http://example.com/a''"
    by (simp add: cleanUrl_def trailingRegex_def rx_eval)
  have e: "linkify [] = []"
    by (simp add: linkify_def urlRegex_def rx_eval)
  have d: "take 21 (js ''http://example.com/a,'') = js ''http://example.com/a,''"
    "drop 21 (js ''http://example.com/a,'') = []"
    by (simp_all add: js_def)
  from linkify_strips_trailing [of "js ''http://example.com/a,''" 21] m
  have \<open>linkify (js ''http://example.com/a,'') = js ''<a href="'' @ cleanUrl (take 21 (js ''http://example.com/a,''))
          @ js ''" target="_blank" class="text-blue-600 underline hover:text-blue-700">''
          @ cleanUrl (take 21 (js ''http://example.com/a,'')) @ js ''</a>'' @ linkify (drop 21 (js ''http://example.com/a,''))\<close>
    by blast
  with m show ?thesis unfolding d c e by (simp add: js_def)
qed

text \<open>
  C10. Where the text has a URL (the scheme, then characters that are neither white
  space nor angle brackets, up to the end of the text or to such a character) that ends
  in a run of the characters \<^verbatim>\<open>. , ! ? )\<close>, \<^verbatim>\<open>linkify\<close> replaces the whole of it, the run
  included, by the anchor of the URL without the run: the run is not in the output. (The
  text before the URL is one in which no URL starts.)
\<close>

theorem linkify_deletes_trailing:
  assumes "scheme = js ''http://'' \<or> scheme = js ''https://''"
    and "list_all urlChar body" and "list_all isTrailing ps" and "body @ ps \<noteq> []"
    and "body = [] \<or> \<not> isTrailing (last body)"
    and "rest = [] \<or> \<not> urlChar (hd rest)"
    and "\<not> sublist (js ''http'') pre"
  shows "linkify (pre @ scheme @ body @ ps @ rest) = pre @ anchor (scheme @ body) @ linkify rest"
  using assms by (rule linkify_url)

theorem linkify_deletes_trailing_witness:
  \<open>list_all urlChar (js ''example.com/a'') \<and> list_all isTrailing (js '',)'')
   \<and> \<not> isTrailing (last (js ''example.com/a'')) \<and> \<not> urlChar (hd (js '' ora''))
   \<and> \<not> sublist (js ''http'') (js ''Visita '')
   \<and> linkify (js ''Visita '' @ js ''http://'' @ js ''example.com/a'' @ js '',)'' @ js '' ora'')
       = js ''Visita '' @ anchor (js ''http://'' @ js ''example.com/a'') @ linkify (js '' ora'')\<close>
proof -
  have h: "list_all urlChar (js ''example.com/a'')" "list_all isTrailing (js '',)'')"
    "js ''example.com/a'' @ js '',)'' \<noteq> []"
    "\<not> isTrailing (last (js ''example.com/a''))" "\<not> urlChar (hd (js '' ora''))"
    by (simp_all add: js_def urlChar_def isTrailing_def isSpace_def)
  have s: "\<not> sublist (js ''http'') (js ''Visita '')"
    by (simp add: js_def sublist_Cons_right)
  from linkify_deletes_trailing [of "js ''http://''" "js ''example.com/a''" "js '',)''" "js '' ora''" "js ''Visita ''"] h s
  show ?thesis by blast
qed

text \<open>
  C3, as the code has it. The three later steps run over the whole output of \<^verbatim>\<open>linkify\<close>,
  the emitted anchors included. An anchor passes through them unchanged, wherever it
  stands, when its URL is inert: when no phone-shaped digit group, no time and no keyword
  occurs in the URL. So a text with such a URL is formatted as the text before the URL,
  the anchor, and the text after it. The keyword step never puts a glyph inside a
  highlighted group of digits.
\<close>

theorem later_steps_keep_inert_links:
  "(inert u \<longrightarrow>
      annotateKeywords (highlightTimes (highlightPhones (x @ anchor u @ y)))
        = annotateKeywords (highlightTimes (highlightPhones x)) @ anchor u
            @ annotateKeywords (highlightTimes (highlightPhones y)))
   \<and> ((scheme = js ''http://'' \<or> scheme = js ''https://'')
        \<and> list_all urlChar body \<and> list_all isTrailing ps \<and> body @ ps \<noteq> []
        \<and> (body = [] \<or> \<not> isTrailing (last body))
        \<and> (rest = [] \<or> \<not> urlChar (hd rest))
        \<and> \<not> sublist (js ''http'') pre \<and> inert (scheme @ body) \<longrightarrow>
      formatResponse (pre @ scheme @ body @ ps @ rest)
        = formatResponse pre @ anchor (scheme @ body) @ formatResponse rest)
   \<and> (list_all (\<lambda>c. isDigit c \<or> isSpace c \<or> c = 58) g \<longrightarrow>
        annotateKeywords (x @ phoneSpan g @ y)
          = annotateKeywords x @ phoneSpan g @ annotateKeywords y
        \<and> annotateKeywords (x @ timeSpan g @ y)
          = annotateKeywords x @ timeSpan g @ annotateKeywords y)"
proof (intro conjI impI)
  assume "inert u"
  then show "annotateKeywords (highlightTimes (highlightPhones (x @ anchor u @ y)))
        = annotateKeywords (highlightTimes (highlightPhones x)) @ anchor u
            @ annotateKeywords (highlightTimes (highlightPhones y))"
    by (rule later_steps_anchor)
next
  assume a: "(scheme = js ''http://'' \<or> scheme = js ''https://'')
        \<and> list_all urlChar body \<and> list_all isTrailing ps \<and> body @ ps \<noteq> []
        \<and> (body = [] \<or> \<not> isTrailing (last body))
        \<and> (rest = [] \<or> \<not> urlChar (hd rest))
        \<and> \<not> sublist (js ''http'') pre \<and> inert (scheme @ body)"
  then have "linkify (pre @ scheme @ body @ ps @ rest)
      = pre @ anchor (scheme @ body) @ linkify rest"
    by (intro linkify_url) simp_all
  moreover from a have "linkify pre = pre" by (intro linkify_no_url) simp
  moreover from a have "inert (scheme @ body)" by simp
  ultimately show "formatResponse (pre @ scheme @ body @ ps @ rest)
        = formatResponse pre @ anchor (scheme @ body) @ formatResponse rest"
    by (simp add: formatResponse_def later_steps_anchor)
next
  assume "list_all (\<lambda>c. isDigit c \<or> isSpace c \<or> c = 58) g"
  then show "annotateKeywords (x @ phoneSpan g @ y)
          = annotateKeywords x @ phoneSpan g @ annotateKeywords y"
    and "annotateKeywords (x @ timeSpan g @ y)
          = annotateKeywords x @ timeSpan g @ annotateKeywords y"
    by (rule annotateKeywords_spans)+
qed

theorem later_steps_keep_inert_links_witness:
  "inert (js ''http://example.com/a'')
   \<and> list_all urlChar (js ''example.com/a'') \<and> list_all isTrailing (js '','')
   \<and> \<not> isTrailing (last (js ''example.com/a'')) \<and> \<not> urlChar (hd (js '' ora''))
   \<and> \<not> sublist (js ''http'') (js ''Visita '')
   \<and> list_all (\<lambda>c. isDigit c \<or> isSpace c \<or> c = 58) (js ''045 807 1111'')
   \<and> formatResponse (js ''Visita '' @ js ''http://'' @ js ''example.com/a'' @ js '','' @ js '' ora'')
       = formatResponse (js ''Visita '') @ anchor (js ''http://'' @ js ''example.com/a'')
           @ formatResponse (js '' ora'')
   \<and> annotateKeywords (js ''CUP '' @ phoneSpan (js ''045 807 1111'') @ js '' CUP'')
       = annotateKeywords (js ''CUP '') @ phoneSpan (js ''045 807 1111'')
           @ annotateKeywords (js '' CUP'')"
proof -
  have i: "inert (js ''http://'' @ js ''example.com/a'')"
    by (simp add: inert_def phoneRegex_def digits34_def timeRegex_def prontoRegex_def
        cupRegex_def rx_eval)
  have h: "list_all urlChar (js ''example.com/a'')" "list_all isTrailing (js '','')"
    "js ''example.com/a'' @ js '','' \<noteq> []"
    "\<not> isTrailing (last (js ''example.com/a''))" "\<not> urlChar (hd (js '' ora''))"
    by (simp_all add: js_def urlChar_def isTrailing_def isSpace_def)
  have s: "\<not> sublist (js ''http'') (js ''Visita '')"
    by (simp add: js_def sublist_Cons_right)
  have d: "list_all (\<lambda>c. isDigit c \<or> isSpace c \<or> c = 58) (js ''045 807 1111'')"
    by (simp add: js_def isDigit_def isSpace_def)
  from later_steps_keep_inert_links [of "js ''http://'' @ js ''example.com/a''" "js ''CUP ''" "js '' CUP''"
      "js ''http://''" "js ''example.com/a''" "js '',''" "js '' ora''" "js ''Visita ''"
      "js ''045 807 1111''"] i h s d
  show ?thesis by (simp add: js_def)
qed


text \<open>
  The claim C3 as stated fails: in a link whose URL holds the acronym, a time and nine
  digits, the glyph and both highlights are put inside the link target and inside the
  link text.
\<close>

theorem later_steps_alter_link_target:
  \<open>formatResponse (js ''http://x.it/CUP/12:30/123456789'')
     = js ''<a href="http://x.it/''
         @ cupText
         @ js ''/''
         @ timeSpan (js ''12:30'')
         @ js ''/''
         @ phoneSpan (js ''123456789'')
         @ js ''" target="_blank" class="text-blue-600 underline hover:text-blue-700">http://x.it/''
         @ cupText
         @ js ''/''
         @ timeSpan (js ''12:30'')
         @ js ''/''
         @ phoneSpan (js ''123456789'')
         @ js ''</a>''\<close>
proof -
  have 1: \<open>linkify (js ''http://x.it/CUP/12:30/123456789'')
      = js ''<a href="http://x.it/CUP/12:30/123456789" target="_blank" class="text-blue-600 underline hover:text-blue-700">http://x.it/CUP/12:30/123456789</a>''\<close>
    by (simp add: linkify_def cleanUrl_def trailingRegex_def anchor_def rx_run)
  have 2: \<open>highlightPhones (js ''<a href="http://x.it/CUP/12:30/123456789" target="_blank" class="text-blue-600 underline hover:text-blue-700">http://x.it/CUP/12:30/123456789</a>'')
      = js ''<a href="http://x.it/CUP/12:30/''
          @ phoneSpan (js ''123456789'')
          @ js ''" target="_blank" class="text-blue-600 underline hover:text-blue-700">http://x.it/CUP/12:30/''
          @ phoneSpan (js ''123456789'')
          @ js ''</a>''\<close>
    by (simp add: highlightPhones_def phoneSpan_def rx_run)
  have 3: \<open>highlightTimes (js ''<a href="http://x.it/CUP/12:30/''
          @ phoneSpan (js ''123456789'')
          @ js ''" target="_blank" class="text-blue-600 underline hover:text-blue-700">http://x.it/CUP/12:30/''
          @ phoneSpan (js ''123456789'')
          @ js ''</a>'')
      = js ''<a href="http://x.it/CUP/''
          @ timeSpan (js ''12:30'')
          @ js ''/''
          @ phoneSpan (js ''123456789'')
          @ js ''" target="_blank" class="text-blue-600 underline hover:text-blue-700">http://x.it/CUP/''
          @ timeSpan (js ''12:30'')
          @ js ''/''
          @ phoneSpan (js ''123456789'')
          @ js ''</a>''\<close>
    by (simp add: highlightTimes_def timeSpan_def phoneSpan_def rx_run)
  have 4: \<open>annotatePronto (js ''<a href="http://x.it/CUP/''
          @ timeSpan (js ''12:30'')
          @ js ''/''
          @ phoneSpan (js ''123456789'')
          @ js ''" target="_blank" class="text-blue-600 underline hover:text-blue-700">http://x.it/CUP/''
          @ timeSpan (js ''12:30'')
          @ js ''/''
          @ phoneSpan (js ''123456789'')
          @ js ''</a>'')
      = js ''<a href="http://x.it/CUP/''
          @ timeSpan (js ''12:30'')
          @ js ''/''
          @ phoneSpan (js ''123456789'')
          @ js ''" target="_blank" class="text-blue-600 underline hover:text-blue-700">http://x.it/CUP/''
          @ timeSpan (js ''12:30'')
          @ js ''/''
          @ phoneSpan (js ''123456789'')
          @ js ''</a>''\<close>
    by (simp add: annotatePronto_def timeSpan_def phoneSpan_def rx_run)
  have 5: \<open>annotateCup (js ''<a href="http://x.it/CUP/''
          @ timeSpan (js ''12:30'')
          @ js ''/''
          @ phoneSpan (js ''123456789'')
          @ js ''" target="_blank" class="text-blue-600 underline hover:text-blue-700">http://x.it/CUP/''
          @ timeSpan (js ''12:30'')
          @ js ''/''
          @ phoneSpan (js ''123456789'')
          @ js ''</a>'')
      = js ''<a href="http://x.it/''
          @ cupText
          @ js ''/''
          @ timeSpan (js ''12:30'')
          @ js ''/''
          @ phoneSpan (js ''123456789'')
          @ js ''" target="_blank" class="text-blue-600 underline hover:text-blue-700">http://x.it/''
          @ cupText
          @ js ''/''
          @ timeSpan (js ''12:30'')
          @ js ''/''
          @ phoneSpan (js ''123456789'')
          @ js ''</a>''\<close>
    by (simp add: annotateCup_def cupText_def timeSpan_def phoneSpan_def rx_run)
  show ?thesis
    unfolding formatResponse_def annotateKeywords_def 1 2 3 4 5 by (rule refl)
qed

text \<open>
  C6, as the code has it. An occurrence of the emergency-department term, in any casing
  of its letters, is replaced by the glyph and \<^verbatim>\<open>Pronto Soccorso\<close>; the step changes a
  text exactly when the text holds such an occurrence. The acronym is annotated only in
  capitals: the step changes a text exactly when the text holds \<^verbatim>\<open>CUP\<close> so written.
\<close>

theorem keywords_casing:
  "(map canonicalize k = js ''PRONTO SOCCORSO'' \<longrightarrow>
      annotatePronto (k @ rest) = prontoText @ annotatePronto rest)
   \<and> (annotatePronto text = text
        \<longleftrightarrow> \<not> (\<exists>k. sublist k text \<and> map canonicalize k = js ''PRONTO SOCCORSO''))
   \<and> annotateCup (js ''CUP'' @ rest) = cupText @ annotateCup rest
   \<and> (annotateCup text = text \<longleftrightarrow> \<not> sublist (js ''CUP'') text)
   \<and> formatResponse (js ''Il cup e il CUP'') = js ''Il cup e il '' @ cupText"
proof (intro conjI impI)
  assume "map canonicalize k = js ''PRONTO SOCCORSO''"
  then show "annotatePronto (k @ rest) = prontoText @ annotatePronto rest"
    by (rule annotatePronto_hit)
next
  show "annotatePronto text = text
        \<longleftrightarrow> \<not> (\<exists>k. sublist k text \<and> map canonicalize k = js ''PRONTO SOCCORSO'')"
    by (rule annotatePronto_fixed)
next
  show "annotateCup (js ''CUP'' @ rest) = cupText @ annotateCup rest"
    by (rule annotateCup_hit)
next
  show "annotateCup text = text \<longleftrightarrow> \<not> sublist (js ''CUP'') text"
    by (rule annotateCup_fixed)
next
  show "formatResponse (js ''Il cup e il CUP'') = js ''Il cup e il '' @ cupText"
    by (simp add: formatResponse_def linkify_def highlightPhones_def highlightTimes_def
        annotateKeywords_def annotatePronto_def annotateCup_def cupText_def rx_run)
qed

theorem keywords_casing_witness:
  "map canonicalize (js ''PRONTO soccorso'') = js ''PRONTO SOCCORSO''
   \<and> annotatePronto (js ''PRONTO soccorso'' @ js '' aperto'')
       = prontoText @ annotatePronto (js '' aperto'')"
proof -
  have h: "map canonicalize (js ''PRONTO soccorso'') = js ''PRONTO SOCCORSO''"
    by (simp add: js_def canonicalize_def)
  from keywords_casing [of "js ''PRONTO soccorso''" "js '' aperto''"] h show ?thesis by blast
qed

text \<open>
  The claim C6 as stated fails: the acronym in lower case comes out of the formatter as
  it went in, without the glyph.
\<close>

theorem lower_case_acronym_not_annotated:
  "formatResponse (js ''cup'') = js ''cup''"
  by (simp add: formatResponse_def linkify_def highlightPhones_def highlightTimes_def
      annotateKeywords_def annotatePronto_def annotateCup_def rx_run)

text \<open>
  C7, as the code has it. For the input of the example the digits are wrapped in the
  emphasis marker and the text around them is unchanged. What the phone step wraps is
  always a group of the shape: three or four digits, nothing or one white-space
  character, three or four digits, nothing or one white-space character, three or four
  digits. Where such a group begins, the pattern matches; the step changes a text
  exactly when the text holds such a group.
\<close>

theorem phone_groups_highlighted:
  \<open>formatResponse (js ''Chiama 045 807 1111'')
     = js ''Chiama <span class="font-semibold text-blue-600">045 807 1111</span>''
   \<and> (matchAt phoneRegex s = Some n \<longrightarrow>
        phoneShaped (take n s)
        \<and> highlightPhones s = phoneSpan (take n s) @ highlightPhones (drop n s))
   \<and> (phoneShaped g \<longrightarrow> (\<exists>n. matchAt phoneRegex (g @ rest) = Some n))
   \<and> (highlightPhones text = text \<longleftrightarrow> \<not> (\<exists>g. sublist g text \<and> phoneShaped g))\<close>
proof (intro conjI impI)
  show \<open>formatResponse (js ''Chiama 045 807 1111'')
     = js ''Chiama <span class="font-semibold text-blue-600">045 807 1111</span>''\<close>
    by (simp add: formatResponse_def linkify_def highlightPhones_def highlightTimes_def
        annotateKeywords_def annotatePronto_def annotateCup_def phoneSpan_def rx_run)
next
  assume "matchAt phoneRegex s = Some n"
  then show "phoneShaped (take n s)" by (rule matchAt_phoneShaped)
next
  assume "matchAt phoneRegex s = Some n"
  from replaceAll_match [OF neverEmpty_phoneRegex this]
  show "highlightPhones s = phoneSpan (take n s) @ highlightPhones (drop n s)"
    by (simp add: highlightPhones_def)
next
  assume "phoneShaped g"
  from phoneRegex_complete [OF this, of rest]
  show "\<exists>n. matchAt phoneRegex (g @ rest) = Some n"
    by (auto simp: matchAt_def)
next
  show "highlightPhones text = text \<longleftrightarrow> \<not> (\<exists>g. sublist g text \<and> phoneShaped g)"
    by (rule highlightPhones_fixed)
qed

theorem phone_groups_highlighted_witness:
  "matchAt phoneRegex (js ''045 807 1111 oggi'') = Some 12
   \<and> phoneShaped (js ''045 807 1111'')
   \<and> highlightPhones (js ''045 807 1111 oggi'')
       = phoneSpan (js ''045 807 1111'') @ highlightPhones (js '' oggi'')
   \<and> (\<exists>n. matchAt phoneRegex (js ''045 807 1111'' @ js ''!'') = Some n)"
proof -
  have m: "matchAt phoneRegex (js ''045 807 1111 oggi'') = Some 12"
    by (simp add: rx_run)
  have t: "take 12 (js ''045 807 1111 oggi'') = js ''045 807 1111''"
    "drop 12 (js ''045 807 1111 oggi'') = js '' oggi''"
    by (simp_all add: js_def)
  from phone_groups_highlighted [of "js ''045 807 1111 oggi''" 12] m
  have 1: "phoneShaped (take 12 (js ''045 807 1111 oggi''))"
    "highlightPhones (js ''045 807 1111 oggi'')
       = phoneSpan (take 12 (js ''045 807 1111 oggi''))
           @ highlightPhones (drop 12 (js ''045 807 1111 oggi''))"
    by blast+
  from 1(1) have p: "phoneShaped (js ''045 807 1111'')" unfolding t .
  from phone_groups_highlighted [of _ _ "js ''045 807 1111''" "js ''!''"] p
  have "\<exists>n. matchAt phoneRegex (js ''045 807 1111'' @ js ''!'') = Some n" by blast
  with m p 1(2) show ?thesis unfolding t by blast
qed

text \<open>
  The claim C7 as stated fails: nine digits in a row, with no space in them, are
  highlighted.
\<close>

theorem digits_without_spaces_highlighted:
  \<open>formatResponse (js ''123456789'')
     = js ''<span class="font-semibold text-blue-600">123456789</span>''\<close>
  by (simp add: formatResponse_def linkify_def highlightPhones_def highlightTimes_def
      annotateKeywords_def annotatePronto_def annotateCup_def phoneSpan_def rx_run)

end
